theory Spec2Isabelle
  imports Complex_Main "HOL-Library.Word"
begin

unbundle bit_operations_syntax

section \<open>Data model\<close>

text \<open>
  A \<open>Uint8Array\<close> is a list of 8-bit words. A JavaScript string is a list of UTF-16 code
  units. JavaScript numbers that hold lengths, indices, character codes and bit masks are
  natural numbers here: every such value in \<open>ppm.js\<close> and \<open>steg_module.js\<close> is a
  non-negative integer far below \<open>2^31\<close>, where the 32-bit operators \<open>&\<close>, \<open>|\<close>,
  \<open><<\<close> and \<open>>>\<close> agree with \<open>AND\<close>, \<open>OR\<close>, \<open>push_bit\<close> and \<open>drop_bit\<close>.
  The operands of \<open>bytes[i] & ~1\<close>, \<open>bytes[i] | 1\<close> and \<open>bytes[i] & 1\<close> are integers,
  since \<open>~1\<close> is negative.
\<close>

type_synonym u8 = "8 word"
type_synonym u16 = "16 word"
type_synonym jsstring = "u16 list"

text \<open>The fields of a \<open>Ppm\<close> object (\<open>ppm.js\<close>, lines 32-40).\<close>

record ppm =
  width :: nat
  height :: nat
  maxColors :: nat
  hdrBytes :: "u8 list"
  pixelBytes :: "u8 list"

text \<open>
  The error results of the two modules, named by the identifier each message starts with;
  \<open>BAD_IMAGE_FORMAT\<close> is the \<open>{ error: 'bad image format' }\<close> object of the \<open>Ppm\<close>
  constructor.
\<close>

datatype error = BAD_IMAGE_FORMAT | STEG_MSG | STEG_TOO_BIG | STEG_NO_MSG | STEG_BAD_MSG

section \<open>ppm.js\<close>

subsection \<open>Character classes\<close>

datatype ctype = Space | Digit

text \<open>\<open>CTYPES\<close>: the codes of \<open>' \t\n\r'\<close> are spaces, those of \<open>'0123456789'\<close> digits.\<close>

definition CTYPES :: "u8 \<Rightarrow> ctype option" where
  "CTYPES byte =
     (if byte \<in> set [0x30, 0x31, 0x32, 0x33, 0x34, 0x35, 0x36, 0x37, 0x38, 0x39] then Some Digit
      else if byte \<in> set [0x20, 0x09, 0x0A, 0x0D] then Some Space
      else None)"

definition isspace :: "u8 \<Rightarrow> bool" where
  "isspace byte = (CTYPES byte = Some Space)"

definition isdigit :: "u8 \<Rightarrow> bool" where
  "isdigit byte = (CTYPES byte = Some Digit)"

subsection \<open>Reading integers\<close>

text \<open>
  The loop \<open>while (index < buf.length && P(buf[index])) index++\<close>, used by
  \<open>advanceOverNextInt\<close> with \<open>isspace\<close> and with \<open>isdigit\<close>.
\<close>

function advance_while :: "(u8 \<Rightarrow> bool) \<Rightarrow> u8 list \<Rightarrow> nat \<Rightarrow> nat" where
  "advance_while P buf index =
     (if index < length buf \<and> P (buf ! index) then advance_while P buf (index + 1) else index)"
  by pat_completeness auto
termination
  by (relation "measure (\<lambda>(P, buf, index). length buf - index)") auto

declare advance_while.simps [simp del]

text \<open>\<open>advanceOverNextInt\<close> returns \<open>-1\<close> when no digit follows the whitespace.\<close>

definition advanceOverNextInt :: "u8 list \<Rightarrow> nat \<Rightarrow> int" where
  "advanceOverNextInt buf index =
     (let index1 = advance_while isspace buf index in
      if index1 \<ge> length buf \<or> \<not> isdigit (buf ! index1) then - 1
      else int (advance_while isdigit buf index1))"

text \<open>
  \<open>Number(str)\<close> on the text that \<open>nextInt\<close> decodes: whitespace of \<open>CTYPES\<close> (which
  \<open>Number\<close> trims) followed by decimal digits. The value is the exact natural number; a
  double holds it exactly below \<open>2^53\<close>, and a rounded larger value can satisfy none of the
  equalities \<open>ppmFormat\<close> tests against a buffer length.
\<close>

definition digit_value :: "u8 \<Rightarrow> nat" where
  "digit_value d = unat d - 48"

definition Number_of :: "u8 list \<Rightarrow> nat" where
  "Number_of str = foldl (\<lambda>n d. 10 * n + digit_value d) 0 (dropWhile isspace str)"

text \<open>\<open>buf.slice(from, to)\<close> for indices within the buffer.\<close>

definition slice :: "u8 list \<Rightarrow> nat \<Rightarrow> nat \<Rightarrow> u8 list" where
  "slice buf from to = take (to - from) (drop from buf)"

text \<open>
  A \<open>BufIndex\<close> is its buffer, which never changes, and its index: each method takes the
  index and returns its result with the new index; \<open>None\<close> is \<open>undefined\<close>.
\<close>

definition nextChar :: "u8 list \<Rightarrow> nat \<Rightarrow> u8 option \<times> nat" where
  "nextChar buf i = (if i < length buf then (Some (buf ! i), i + 1) else (None, i))"

definition nextInt :: "u8 list \<Rightarrow> nat \<Rightarrow> nat option \<times> nat" where
  "nextInt buf index =
     (let nextIndex = advanceOverNextInt buf index in
      if nextIndex > 0 then (Some (Number_of (slice buf index (nat nextIndex))), nat nextIndex)
      else (None, index))"

subsection \<open>The header\<close>

text \<open>\<open>PPM_FORMAT = 'P6'\<close>.\<close>

definition PPM_FORMAT :: "u8 list" where
  "PPM_FORMAT = [0x50, 0x36]"

record format =
  f_width :: nat
  f_height :: nat
  f_maxColors :: nat
  f_pixelsIndex :: nat

text \<open>
  \<open>ppmFormat\<close>. A comparison with \<open>undefined\<close> (\<open>undefined > 0\<close>,
  \<open>undefined === 255\<close>) is false, so a missing field makes the result \<open>undefined\<close>.
\<close>

definition ppmFormat :: "u8 list \<Rightarrow> format option" where
  "ppmFormat bytes =
     (let (c0, i1) = nextChar bytes 0;
          (c1, i2) = nextChar bytes i1
      in if c0 \<noteq> Some (PPM_FORMAT ! 0) \<and> c1 \<noteq> Some (PPM_FORMAT ! 1) then None
         else
           let (width, i3) = nextInt bytes i2;
               (height, i4) = nextInt bytes i3;
               (maxColors, i5) = nextInt bytes i4;
               pixelsIndex = i5 + 1
           in case (width, height, maxColors) of
                (Some w, Some h, Some m) \<Rightarrow>
                  if w > 0 \<and> h > 0 \<and> m = 255 \<and> length bytes = pixelsIndex + w * h * 3
                  then Some \<lparr>f_width = w, f_height = h, f_maxColors = m,
                             f_pixelsIndex = pixelsIndex\<rparr>
                  else None
              | _ \<Rightarrow> None)"

subsection \<open>The constructor and \<open>bytes\<close>\<close>

datatype ppm_arg = OfPpm ppm | OfBytes "u8 list"

text \<open>
  \<open>Ppm(arg)\<close>: called with a \<open>Ppm\<close> it copies every field, the two arrays by
  \<open>slice()\<close>; called with a \<open>Uint8Array\<close> it parses the header and splits the buffer.
\<close>

fun Ppm :: "ppm_arg \<Rightarrow> error + ppm" where
  "Ppm (OfPpm p) = Inr (p\<lparr>hdrBytes := hdrBytes p, pixelBytes := pixelBytes p\<rparr>)"
| "Ppm (OfBytes bytes) =
     (case ppmFormat bytes of
        None \<Rightarrow> Inl BAD_IMAGE_FORMAT
      | Some fmt \<Rightarrow>
          Inr \<lparr>width = f_width fmt, height = f_height fmt, maxColors = f_maxColors fmt,
               hdrBytes = take (f_pixelsIndex fmt) bytes,
               pixelBytes = drop (f_pixelsIndex fmt) bytes\<rparr>)"

text \<open>\<open>Ppm.prototype.bytes\<close>: the header bytes followed by the pixel bytes.\<close>

definition bytes_of :: "ppm \<Rightarrow> u8 list" where
  "bytes_of p = hdrBytes p @ pixelBytes p"

section \<open>steg_module.js\<close>

subsection \<open>Constants\<close>

text \<open>\<open>STEG_MAGIC = 'stg'\<close>, \<open>STEG_MAGIC_LEN = STEG_MAGIC.length\<close>, \<open>CHAR_BIT = 8\<close>.\<close>

definition STEG_MAGIC :: jsstring where
  "STEG_MAGIC = [0x73, 0x74, 0x67]"

definition STEG_MAGIC_LEN :: nat where
  "STEG_MAGIC_LEN = length STEG_MAGIC"

definition CHAR_BIT :: nat where
  "CHAR_BIT = 8"

subsection \<open>Strings and typed arrays\<close>

text \<open>
  \<open>for (const c of s)\<close> walks a string by code points: a lead surrogate followed by a
  trail surrogate is one two-unit string, every other code unit a one-unit string.
\<close>

definition is_lead :: "u16 \<Rightarrow> bool" where
  "is_lead u = (0xD800 \<le> u \<and> u \<le> 0xDBFF)"

definition is_trail :: "u16 \<Rightarrow> bool" where
  "is_trail u = (0xDC00 \<le> u \<and> u \<le> 0xDFFF)"

fun string_iter :: "jsstring \<Rightarrow> jsstring list" where
  "string_iter [] = []"
| "string_iter [u] = [[u]]"
| "string_iter (u # v # rest) =
     (if is_lead u \<and> is_trail v then [u, v] # string_iter rest
      else [u] # string_iter (v # rest))"

text \<open>
  \<open>c.charCodeAt()\<close> is the code unit at index 0. On an empty string it is \<open>NaN\<close>, which
  the operator \<open>&\<close> reads as 0; the iteration never yields one.
\<close>

definition charCodeAt :: "jsstring \<Rightarrow> nat" where
  "charCodeAt c = (case c of [] \<Rightarrow> 0 | u # _ \<Rightarrow> unat u)"

text \<open>\<open>String.fromCharCode(n)\<close>: the one-unit string of \<open>n\<close> modulo \<open>2^16\<close>.\<close>

definition fromCharCode :: "nat \<Rightarrow> jsstring" where
  "fromCharCode n = [of_nat n]"

text \<open>
  Reading \<open>bytes[i]\<close> as an operand of \<open>&\<close> or \<open>|\<close>: the element, or 0 for the
  \<open>undefined\<close> that an index outside the array gives. Storing \<open>bytes[i] = v\<close>: the value
  modulo 256; a store outside the array is ignored.
\<close>

definition u8_get :: "u8 list \<Rightarrow> nat \<Rightarrow> int" where
  "u8_get bytes i = (if i < length bytes then uint (bytes ! i) else 0)"

definition u8_put :: "u8 list \<Rightarrow> nat \<Rightarrow> int \<Rightarrow> u8 list" where
  "u8_put bytes i v = (if i < length bytes then bytes[i := word_of_int v] else bytes)"

subsection \<open>unhideLo\<close>

text \<open>
  The inner loop of \<open>unhideLo\<close>, on the local variables \<open>mask\<close>, \<open>charCode\<close> and
  \<open>i\<close>; the variable \<open>mask\<close> is written \<open>msk\<close>, the other name being a constant of the
  word library. The fourth component records, in order, every index at which \<open>bytes\<close> is
  read.
\<close>

function unhide_bits :: "u8 list \<Rightarrow> nat \<Rightarrow> nat \<times> nat \<times> nat \<times> nat list \<Rightarrow> nat \<times> nat \<times> nat \<times> nat list" where
  "unhide_bits bytes maxOffset (msk, charCode, i, rd) =
     (if msk \<noteq> 0 \<and> i < maxOffset then
        unhide_bits bytes maxOffset
          (drop_bit 1 msk,
           (if u8_get bytes i AND 1 \<noteq> 0 then charCode OR msk else charCode),
           i + 1, rd @ [i])
      else (msk, charCode, i, rd))"
  by pat_completeness auto
termination
  by (relation "measure (\<lambda>(bytes, maxOffset, msk, charCode, i, rd). msk)")
     (auto simp: drop_bit_Suc)

declare unhide_bits.simps [simp del]

lemma unhide_bits_index_mono:
  "unhide_bits bytes maxOffset (msk, charCode, i, rd) = (msk', charCode', i', rd') \<Longrightarrow> i \<le> i'"
proof (induction bytes maxOffset "(msk, charCode, i, rd)"
       arbitrary: msk charCode i rd rule: unhide_bits.induct)
  case (1 bytes maxOffset msk charCode i rd)
  show ?case
  proof (cases "msk \<noteq> 0 \<and> i < maxOffset")
    case True
    with "1.prems" have "unhide_bits bytes maxOffset
          (drop_bit 1 msk,
           (if u8_get bytes i AND 1 \<noteq> 0 then charCode OR msk else charCode),
           i + 1, rd @ [i]) = (msk', charCode', i', rd')"
      by (subst (asm) unhide_bits.simps) simp
    from "1.hyps" [OF True this] show ?thesis by simp
  next
    case False
    with "1.prems" show ?thesis
      by (subst (asm) unhide_bits.simps) auto
  qed
qed

lemma unhide_bits_index_less:
  assumes "msk \<noteq> 0" and "i < maxOffset"
    and "unhide_bits bytes maxOffset (msk, charCode, i, rd) = (msk', charCode', i', rd')"
  shows "i < i'"
proof -
  from assms have "unhide_bits bytes maxOffset
          (drop_bit 1 msk,
           (if u8_get bytes i AND 1 \<noteq> 0 then charCode OR msk else charCode),
           i + 1, rd @ [i]) = (msk', charCode', i', rd')"
    by (subst (asm) unhide_bits.simps) simp
  from unhide_bits_index_mono [OF this] show ?thesis by simp
qed

text \<open>
  The outer loop of \<open>unhideLo\<close>, on the local variables \<open>i\<close>, \<open>msg\<close>, \<open>charCode\<close> and
  \<open>mask\<close> (\<open>None\<close> while a variable is still \<open>undefined\<close>) and the record of reads. Each
  \<open>break\<close> returns the variables as they are at that point.
\<close>

function unhide_loop :: "u8 list \<Rightarrow> nat \<Rightarrow> int \<Rightarrow> nat \<times> jsstring \<times> nat option \<times> nat option \<times> nat list
    \<Rightarrow> nat \<times> jsstring \<times> nat option \<times> nat option \<times> nat list" where
  "unhide_loop bytes maxOffset msgLen (i, msg, charCode, msk, rd) =
     (if i < maxOffset then
        (case unhide_bits bytes maxOffset (push_bit (CHAR_BIT - 1) 1, 0, i, rd) of
           (msk', charCode', i', rd') \<Rightarrow>
             if charCode' = 0 then (i', msg, Some charCode', Some msk', rd')
             else
               let msg' = msg @ fromCharCode charCode' in
               if msgLen > 0 \<and> int (length msg') \<ge> msgLen
               then (i', msg', Some charCode', Some msk', rd')
               else unhide_loop bytes maxOffset msgLen (i', msg', Some charCode', Some msk', rd'))
      else (i, msg, charCode, msk, rd))"
  by pat_completeness auto
termination
proof (relation "measure (\<lambda>(bytes, maxOffset, msgLen, i, msg, charCode, msk, rd). maxOffset - i)")
qed (auto simp: CHAR_BIT_def dest!: sym [THEN unhide_bits_index_less [rotated 2]])

declare unhide_loop.simps [simp del]

text \<open>
  \<open>unhideLo(msgCharOffset, msgLen = -1)\<close>: \<open>unhideLo_run\<close> is the state when the loop
  ends, \<open>unhideLo\<close> the value returned (\<open>None\<close> for \<open>undefined\<close>) and \<open>unhideLo_reads\<close>
  the indices of \<open>pixelBytes\<close> read on the way.
\<close>

definition unhideLo_run :: "ppm \<Rightarrow> nat \<Rightarrow> int \<Rightarrow> nat \<times> jsstring \<times> nat option \<times> nat option \<times> nat list" where
  "unhideLo_run p msgCharOffset msgLen =
     (let bytes = pixelBytes p;
          maxOffset = nat \<lfloor>(of_nat (length bytes) :: rat) / 8\<rfloor> * 8
      in unhide_loop bytes maxOffset msgLen (msgCharOffset * CHAR_BIT, [], None, None, []))"

definition unhideLo :: "ppm \<Rightarrow> nat \<Rightarrow> int \<Rightarrow> jsstring option" where
  "unhideLo p msgCharOffset msgLen =
     (case unhideLo_run p msgCharOffset msgLen of
        (i, msg, charCode, msk, rd) \<Rightarrow>
          if msgLen < 0 \<and> (msk \<noteq> Some 0 \<or> charCode \<noteq> Some 0) then None else Some msg)"

definition unhideLo_reads :: "ppm \<Rightarrow> nat \<Rightarrow> int \<Rightarrow> nat list" where
  "unhideLo_reads p msgCharOffset msgLen =
     (case unhideLo_run p msgCharOffset msgLen of (i, msg, charCode, msk, rd) \<Rightarrow> rd)"

subsection \<open>checkMagic and unhide\<close>

definition checkMagic :: "ppm \<Rightarrow> bool" where
  "checkMagic p = (unhideLo p 0 (int STEG_MAGIC_LEN) = Some STEG_MAGIC)"

definition unhide :: "ppm \<Rightarrow> error + jsstring" where
  "unhide p =
     (if \<not> checkMagic p then Inl STEG_NO_MSG
      else case unhideLo p STEG_MAGIC_LEN (- 1) of
             None \<Rightarrow> Inl STEG_BAD_MSG
           | Some msg \<Rightarrow> Inr msg)"

subsection \<open>hide\<close>

text \<open>
  The inner loop of \<open>hide\<close>: one bit of \<open>charCode\<close> for each value of \<open>mask\<close>, written to
  the lowest bit of \<open>bytes[byteIndex]\<close>.
\<close>

function hide_bits :: "nat \<Rightarrow> nat \<Rightarrow> u8 list \<times> nat \<Rightarrow> u8 list \<times> nat" where
  "hide_bits charCode msk (bytes, byteIndex) =
     (if msk \<noteq> 0 then
        hide_bits charCode (drop_bit 1 msk)
          ((if charCode AND msk = 0
            then u8_put bytes byteIndex (u8_get bytes byteIndex AND NOT 1)
            else u8_put bytes byteIndex (u8_get bytes byteIndex OR 1)),
           byteIndex + 1)
      else (bytes, byteIndex))"
  by pat_completeness auto
termination
  by (relation "measure (\<lambda>(charCode, msk, bytes, byteIndex). msk)")
     (auto simp: drop_bit_Suc)

declare hide_bits.simps [simp del]

text \<open>The outer loop of \<open>hide\<close>, over the characters of \<open>magicMsg\<close>.\<close>

fun hide_chars :: "jsstring list \<Rightarrow> u8 list \<times> nat \<Rightarrow> u8 list \<times> nat" where
  "hide_chars [] st = st"
| "hide_chars (c # cs) st =
     hide_chars cs (hide_bits (charCodeAt c) (push_bit (CHAR_BIT - 1) 1) st)"

text \<open>
  \<open>hide(msg)\<close>. The capacity test divides as JavaScript does, without rounding. The copy
  \<open>ppmOut\<close> made by the constructor never fails on a \<open>Ppm\<close> argument.
\<close>

definition hide :: "ppm \<Rightarrow> jsstring \<Rightarrow> error + ppm" where
  "hide p msg =
     (if checkMagic p then Inl STEG_MSG
      else if (of_nat (STEG_MAGIC_LEN + length msg + 1) :: rat)
                > of_nat (length (pixelBytes p)) / of_nat CHAR_BIT
      then Inl STEG_TOO_BIG
      else
        (case Ppm (OfPpm p) of
           Inl e \<Rightarrow> Inl e
         | Inr ppmOut \<Rightarrow>
             let bytes = pixelBytes ppmOut;
                 byteIndex = 0;
                 magicMsg = STEG_MAGIC @ msg @ [0];
                 (bytes', byteIndex') = hide_chars (string_iter magicMsg) (bytes, byteIndex)
             in Inr (ppmOut\<lparr>pixelBytes := bytes'\<rparr>)))"

section \<open>Images as objects with buffers in a store\<close>

text \<open>
  The functions above take an image as a value. Whether \<open>hide\<close> changes the image it is
  given depends on which buffers the copy shares with it, so here the two arrays of a
  \<open>Ppm\<close> object are addresses into a store of buffers. An address is an index into the
  store; a new array gets the next free index.
\<close>

type_synonym addr = nat
type_synonym store = "u8 list list"

record ppm_object =
  o_width :: nat
  o_height :: nat
  o_maxColors :: nat
  o_hdrBytes :: addr
  o_pixelBytes :: addr

text \<open>\<open>a.slice()\<close>: a new array with the elements of the array at \<open>a\<close>.\<close>

definition array_slice :: "store \<Rightarrow> addr \<Rightarrow> addr \<times> store" where
  "array_slice s a = (length s, s @ [s ! a])"

text \<open>
  The first branch of the constructor, \<open>new Ppm(ppm)\<close>: \<open>Object.assign(this, ppm)\<close>
  copies the fields, the two arrays by reference; then each array is replaced by a slice
  of itself.
\<close>

definition Ppm_copy :: "store \<Rightarrow> ppm_object \<Rightarrow> ppm_object \<times> store" where
  "Ppm_copy s ppm =
     (let this_obj = ppm;
          (h, s1) = array_slice s (o_hdrBytes this_obj);
          (px, s2) = array_slice s1 (o_pixelBytes this_obj)
      in (this_obj\<lparr>o_hdrBytes := h, o_pixelBytes := px\<rparr>, s2))"

text \<open>The image that an object stands for in a store.\<close>

definition value_of :: "store \<Rightarrow> ppm_object \<Rightarrow> ppm" where
  "value_of s obj =
     \<lparr>width = o_width obj, height = o_height obj, maxColors = o_maxColors obj,
      hdrBytes = s ! o_hdrBytes obj, pixelBytes = s ! o_pixelBytes obj\<rparr>"

text \<open>
  \<open>hide(msg)\<close> with the store: \<open>bytes\<close> is the address of the pixel buffer of the copy,
  and the loops write to the buffer at that address; the result is the new object and the
  store after the writes.
\<close>

definition hide_in_store :: "store \<Rightarrow> ppm_object \<Rightarrow> jsstring \<Rightarrow> (error + ppm_object) \<times> store" where
  "hide_in_store s this_ppm msg =
     (if checkMagic (value_of s this_ppm) then (Inl STEG_MSG, s)
      else if (of_nat (STEG_MAGIC_LEN + length msg + 1) :: rat)
                > of_nat (length (s ! o_pixelBytes this_ppm)) / of_nat CHAR_BIT
      then (Inl STEG_TOO_BIG, s)
      else
        let (ppmOut, s1) = Ppm_copy s this_ppm;
            bytes = o_pixelBytes ppmOut;
            byteIndex = 0;
            magicMsg = STEG_MAGIC @ msg @ [0];
            (buf, byteIndex') = hide_chars (string_iter magicMsg) (s1 ! bytes, byteIndex)
        in (Inr ppmOut, s1[bytes := buf]))"

section \<open>What the loops compute\<close>

text \<open>
  The functions of this section are not in the source. They describe, on lists, what the
  loops of \<open>hide\<close> and \<open>unhideLo\<close> compute; the lemmas below prove that the loops
  compute exactly this.
\<close>

text \<open>Setting or clearing the lowest bit of a byte, and writing a list of bits to the
  lowest bits of the bytes from index \<open>j\<close> on.\<close>

definition set_lsb :: "bool \<Rightarrow> u8 \<Rightarrow> u8" where
  "set_lsb b x = (if b then x OR 1 else x AND NOT 1)"

fun put_bits :: "bool list \<Rightarrow> u8 list \<Rightarrow> nat \<Rightarrow> u8 list" where
  "put_bits [] bytes j = bytes"
| "put_bits (b # bs) bytes j = put_bits bs (bytes[j := set_lsb b (bytes ! j)]) (Suc j)"

text \<open>The lowest bits of a buffer, and the value of a list of bits read most significant
  bit first.\<close>

definition lsbs :: "u8 list \<Rightarrow> bool list" where
  "lsbs bytes = map (\<lambda>x. bit x 0) bytes"

fun val_bits :: "bool list \<Rightarrow> nat" where
  "val_bits [] = 0"
| "val_bits (b # bs) = of_bool b * 2 ^ length bs + val_bits bs"

text \<open>The bytes that the whole groups of 8 bits encode, one byte for each group.\<close>

function decode_all :: "bool list \<Rightarrow> nat list" where
  "decode_all bits =
     (if length bits < 8 then [] else val_bits (take 8 bits) # decode_all (drop 8 bits))"
  by pat_completeness auto
termination
  by (relation "measure length") auto

declare decode_all.simps [simp del]

text \<open>The 8 low bits of a character code, most significant first.\<close>

definition bits8 :: "nat \<Rightarrow> bool list" where
  "bits8 c = map (bit c) (rev [0..<8])"

text \<open>
  The outer loop of \<open>unhideLo\<close> on the list of decoded bytes: the message, \<open>charCode\<close>
  and \<open>mask\<close> it ends with.
\<close>

fun scan :: "int \<Rightarrow> nat list \<Rightarrow> jsstring \<times> nat option \<times> nat option
    \<Rightarrow> jsstring \<times> nat option \<times> nat option" where
  "scan msgLen [] st = st"
| "scan msgLen (d # ds) (msg, cc, mk) =
     (if d = 0 then (msg, Some 0, Some 0)
      else if msgLen > 0 \<and> int (length (msg @ fromCharCode d)) \<ge> msgLen
           then (msg @ fromCharCode d, Some d, Some 0)
           else scan msgLen ds (msg @ fromCharCode d, Some d, Some 0))"

text \<open>
  \<open>decoded p k\<close>: the bytes that the pixel bytes of \<open>p\<close> encode in their lowest bits,
  from the \<open>k\<close>-th group of 8 pixel bytes on; a remainder of fewer than 8 pixel bytes
  encodes nothing. \<open>until_zero\<close> cuts a list of bytes before its first zero.
\<close>

definition decoded :: "ppm \<Rightarrow> nat \<Rightarrow> nat list" where
  "decoded p k = decode_all (drop (k * 8) (lsbs (pixelBytes p)))"

definition until_zero :: "nat list \<Rightarrow> nat list" where
  "until_zero ds = takeWhile (\<lambda>d. d \<noteq> 0) ds"

text \<open>
  What \<open>hide\<close> embeds for a message: for each character that the iteration yields, the
  low 8 bits of its first code unit. \<open>embed\<close> is the pixel buffer after the loops of
  \<open>hide\<close>.
\<close>

definition payload_of :: "jsstring \<Rightarrow> nat list" where
  "payload_of s = map (\<lambda>c. charCodeAt c mod 256) (string_iter s)"

definition embed :: "jsstring \<Rightarrow> u8 list \<Rightarrow> u8 list" where
  "embed msg bytes =
     put_bits (concat (map (\<lambda>c. bits8 (charCodeAt c)) (string_iter (STEG_MAGIC @ msg @ [0]))))
       bytes 0"

text \<open>The capacity of the specification: \<open>floor(pixelByteCount / 8)\<close>.\<close>

definition capacityBytes :: "nat \<Rightarrow> nat" where
  "capacityBytes pixelByteCount = pixelByteCount div 8"

section \<open>Example images\<close>

text \<open>
  \<open>blank n\<close> is an image of \<open>n\<close> pixels whose pixel bytes are all zero; \<open>marked n rest\<close>
  is an image whose pixel bytes carry, in their lowest bits, the three characters of
  \<open>STEG_MAGIC\<close>, followed by the bytes \<open>rest\<close>. Neither \<open>hide\<close> nor \<open>unhide\<close> reads the
  header bytes, which are left empty here.
\<close>

definition blank :: "nat \<Rightarrow> ppm" where
  "blank n = \<lparr>width = n, height = 1, maxColors = 255, hdrBytes = [],
              pixelBytes = replicate (3 * n) 0\<rparr>"

definition stg_bits :: "u8 list" where
  "stg_bits = [0, 1, 1, 1, 0, 0, 1, 1,  0, 1, 1, 1, 0, 1, 0, 0,  0, 1, 1, 0, 0, 1, 1, 1]"

definition marked :: "nat \<Rightarrow> u8 list \<Rightarrow> ppm" where
  "marked n rest = \<lparr>width = n, height = 1, maxColors = 255, hdrBytes = [],
                    pixelBytes = stg_bits @ rest\<rparr>"

text \<open>
  A store with one image of 14 by 1 pixels: its header buffer at address 0 and its pixel
  buffer at address 1.
\<close>

definition sample_store :: store where
  "sample_store = [[0x50, 0x36, 0x0A], [7, 6] @ replicate 30 0 @ [9, 8, 7, 6, 5, 4, 3, 2, 1, 0]]"

definition sample_object :: ppm_object where
  "sample_object = \<lparr>o_width = 14, o_height = 1, o_maxColors = 255, o_hdrBytes = 0, o_pixelBytes = 1\<rparr>"

section \<open>Properties of ppm.js\<close>

lemma advance_while_step:
  "index < length buf \<Longrightarrow> P (buf ! index) \<Longrightarrow>
   advance_while P buf index = advance_while P buf (Suc index)"
  by (subst advance_while.simps) simp

lemma advance_while_stop:
  "\<not> (index < length buf \<and> P (buf ! index)) \<Longrightarrow> advance_while P buf index = index"
  by (subst advance_while.simps) auto

lemma ppmFormat_checks:
  assumes "ppmFormat bytes = Some fmt"
  shows "f_width fmt > 0 \<and> f_height fmt > 0 \<and> f_maxColors fmt = 255 \<and>
         length bytes = f_pixelsIndex fmt + f_width fmt * f_height fmt * 3"
  using assms
  by (auto simp: ppmFormat_def Let_def split: prod.splits if_splits option.splits)

section \<open>Properties of steg_module.js\<close>

subsection \<open>Arithmetic and bits\<close>

lemma maxOffset_eq: "nat \<lfloor>(of_nat n :: rat) / 8\<rfloor> * 8 = n div 8 * 8"
  using floor_divide_of_nat_eq [of n 8, where ?'a = rat] by simp

lemma capacity_test_eq:
  "((of_nat a :: rat) > of_nat n / of_nat CHAR_BIT) = (a > n div 8)"
proof -
  have "((of_nat a :: rat) > of_nat n / of_nat CHAR_BIT) = ((of_nat n :: rat) < of_nat (a * 8))"
    by (simp add: CHAR_BIT_def pos_divide_less_eq)
  also have "\<dots> = (n < a * 8)"
    by (simp only: of_nat_less_iff)
  also have "\<dots> = (a > n div 8)"
    by arith
  finally show ?thesis .
qed

lemma not_bit_of_dvd:
  assumes "2 ^ Suc k dvd (cc::nat)" shows "\<not> bit cc k"
proof -
  from assms obtain m where "cc = 2 ^ Suc k * m" by (auto simp: dvd_def)
  then have "cc div 2 ^ k = 2 * m" by simp
  then show ?thesis by (simp add: bit_iff_odd)
qed

lemma or_pow2: 
  assumes "2 ^ Suc k dvd (cc::nat)" shows "cc OR 2 ^ k = cc + 2 ^ k"
proof -
  have "cc AND 2 ^ k = 0"
    using not_bit_of_dvd [OF assms] by (simp add: and_exp_eq_0_iff_not_bit)
  then show ?thesis
    by (simp add: disjunctive_add_eq_or)
qed

lemma clear_lsb_word: "word_of_int (uint (x::u8) AND NOT 1) = x AND NOT 1"
  by (rule bit_word_eqI) (auto simp: bit_simps)

lemma set_lsb_word: "word_of_int (uint (x::u8) OR 1) = x OR 1"
  by (rule bit_word_eqI) (auto simp: bit_simps)

lemma uint_and_1: "(uint (x::u8) AND 1 \<noteq> 0) = bit x 0"
proof -
  have "(uint x AND 1 \<noteq> 0) = bit (uint x) 0"
    by (simp add: and_one_eq bit_0 mod_2_eq_odd flip: even_iff_mod_2_eq_zero)
  also have "\<dots> = bit x 0"
    by (simp add: bit_uint_iff)
  finally show ?thesis .
qed

lemma bit0_set_lsb: "bit (set_lsb b x) 0 = b"
  by (simp add: set_lsb_def bit_simps)

lemma drop_bit_set_lsb: "drop_bit (Suc 0) (set_lsb b x) = drop_bit (Suc 0) x"
proof (cases b)
  case True
  have "x OR 1 = set_bit 0 x" by (simp add: set_bit_eq_or)
  then have "drop_bit 1 (x OR 1) = drop_bit 1 x"
    by (simp only:) (rule bit_word_eqI, simp add: bit_simps)
  with True show ?thesis by (simp add: set_lsb_def)
next
  case False
  have "x AND NOT 1 = unset_bit 0 x" by (simp add: unset_bit_eq_and_not)
  then have "drop_bit 1 (x AND NOT 1) = drop_bit 1 x"
    by (simp only:) (rule bit_word_eqI, simp add: bit_simps)
  with False show ?thesis by (simp add: set_lsb_def)
qed

lemma u8_get_lsb: "i < length bytes \<Longrightarrow> (u8_get bytes i AND 1 \<noteq> 0) = lsbs bytes ! i"
  by (simp add: u8_get_def lsbs_def uint_and_1)

lemma u8_put_clear: "u8_put bytes i (u8_get bytes i AND NOT 1) = bytes[i := set_lsb False (bytes ! i)]"
  using clear_lsb_word [of "bytes ! i"]
  by (cases "i < length bytes") (simp_all add: u8_put_def u8_get_def set_lsb_def list_update_beyond)

lemma u8_put_set: "u8_put bytes i (u8_get bytes i OR 1) = bytes[i := set_lsb True (bytes ! i)]"
  using set_lsb_word [of "bytes ! i"]
  by (cases "i < length bytes") (simp_all add: u8_put_def u8_get_def set_lsb_def list_update_beyond)

subsection \<open>The loops of unhideLo\<close>

lemma unhide_bits_step:
  "msk \<noteq> 0 \<Longrightarrow> i < maxOffset \<Longrightarrow>
   unhide_bits bytes maxOffset (msk, cc, i, rd) =
   unhide_bits bytes maxOffset
     (drop_bit 1 msk, (if u8_get bytes i AND 1 \<noteq> 0 then cc OR msk else cc), i + 1, rd @ [i])"
  by (subst unhide_bits.simps) simp

lemma unhide_bits_stop:
  "msk = 0 \<or> maxOffset \<le> i \<Longrightarrow> unhide_bits bytes maxOffset (msk, cc, i, rd) = (msk, cc, i, rd)"
  by (subst unhide_bits.simps) auto

lemma take_Suc_drop: "i < length xs \<Longrightarrow> take (Suc n) (drop i xs) = xs ! i # take n (drop (Suc i) xs)"
  by (simp flip: Cons_nth_drop_Suc)

lemma unhide_bits_pow2:
  assumes "i + Suc k \<le> maxOffset" and "maxOffset \<le> length bytes" and "2 ^ Suc k dvd cc"
  shows "unhide_bits bytes maxOffset (2 ^ k, cc, i, rd) =
         (0, cc + val_bits (take (Suc k) (drop i (lsbs bytes))), i + Suc k, rd @ [i..<i + Suc k])"
  using assms
proof (induction k arbitrary: cc i rd)
  case 0
  then have i: "i < maxOffset" "i < length bytes" "i < length (lsbs bytes)"
    by (simp_all add: lsbs_def)
  have "cc OR 1 = cc + 1"
    using or_pow2 [of 0 cc] "0.prems"(3) by simp
  then show ?case
    using i by (simp add: unhide_bits_step unhide_bits_stop u8_get_lsb take_Suc_drop)
next
  case (Suc k)
  then have i: "i < maxOffset" "i < length bytes" "i < length (lsbs bytes)"
    by (simp_all add: lsbs_def)
  let ?b = "lsbs bytes ! i"
  let ?cc = "cc + of_bool ?b * 2 ^ Suc k"
  have or: "cc OR 2 ^ Suc k = cc + 2 ^ Suc k"
    using or_pow2 [of "Suc k" cc] Suc.prems(3) by simp
  have dvd: "2 ^ Suc k dvd ?cc"
    using Suc.prems(3) by (auto dest: dvd_mult_right [of 2 "2 ^ Suc k" cc, simplified])
  have step: "unhide_bits bytes maxOffset (2 ^ Suc k, cc, i, rd) =
        unhide_bits bytes maxOffset (2 ^ k, ?cc, i + 1, rd @ [i])"
    using i or by (simp add: unhide_bits_step u8_get_lsb drop_bit_Suc)
  have len: "length (take (Suc k) (drop (Suc i) (lsbs bytes))) = Suc k"
    using Suc.prems(1,2) by (simp add: lsbs_def)
  have "unhide_bits bytes maxOffset (2 ^ k, ?cc, i + 1, rd @ [i]) =
        (0, ?cc + val_bits (take (Suc k) (drop (i + 1) (lsbs bytes))), i + 1 + Suc k,
         (rd @ [i]) @ [i + 1..<i + 1 + Suc k])"
    using Suc.prems by (intro Suc.IH dvd) simp_all
  also have "\<dots> = (0, cc + val_bits (take (Suc (Suc k)) (drop i (lsbs bytes))), i + Suc (Suc k),
         rd @ [i..<i + Suc (Suc k)])"
    using i len by (simp add: take_Suc_drop [of i] upt_conv_Cons del: take_Suc_Cons upt_Suc)
  finally show ?case using step by simp
qed

lemma decode_all_short: "length bits < 8 \<Longrightarrow> decode_all bits = []"
  by (subst decode_all.simps) simp

lemma decode_all_step:
  "8 \<le> length bits \<Longrightarrow> decode_all bits = val_bits (take 8 bits) # decode_all (drop 8 bits)"
  by (subst decode_all.simps) simp

lemma unhide_bits_byte:
  assumes "i + 8 \<le> maxOffset" and "maxOffset \<le> length bytes"
  shows "unhide_bits bytes maxOffset (push_bit (CHAR_BIT - 1) 1, 0, i, rd) =
         (0, val_bits (take 8 (drop i (lsbs bytes))), i + 8, rd @ [i..<i + 8])"
  using unhide_bits_pow2 [of i 7 maxOffset bytes 0 rd] assms
  by (simp add: CHAR_BIT_def)

lemma unhide_loop_scan:
  assumes "maxOffset = length bytes div 8 * 8" and "8 dvd i"
  shows "(case unhide_loop bytes maxOffset msgLen (i, msg, cc, mk, rd) of
            (i', msg', cc', mk', rd') \<Rightarrow> (msg', cc', mk'))
         = scan msgLen (decode_all (drop i (lsbs bytes))) (msg, cc, mk)"
  using assms(2)
proof (induction "maxOffset - i" arbitrary: i msg cc mk rd rule: less_induct)
  case less
  show ?case
  proof (cases "i < maxOffset")
    case False
    with assms(1) have "length (drop i (lsbs bytes)) < 8"
      by (simp add: lsbs_def)
    then have "decode_all (drop i (lsbs bytes)) = []"
      by (rule decode_all_short)
    with False show ?thesis
      by (subst unhide_loop.simps) simp
  next
    case True
    with assms(1) less.prems have bound: "i + 8 \<le> maxOffset" "maxOffset \<le> length bytes"
      by (auto elim!: dvdE)
    let ?d = "val_bits (take 8 (drop i (lsbs bytes)))"
    have inner: "unhide_bits bytes maxOffset (push_bit (CHAR_BIT - 1) 1, 0, i, rd) =
         (0, ?d, i + 8, rd @ [i..<i + 8])"
      using bound by (rule unhide_bits_byte)
    have "8 \<le> length (drop i (lsbs bytes))"
      using bound by (simp add: lsbs_def)
    then have dec: "decode_all (drop i (lsbs bytes)) = ?d # decode_all (drop (i + 8) (lsbs bytes))"
      by (simp add: decode_all_step add.commute)
    have IH: "(case unhide_loop bytes maxOffset msgLen (i + 8, m, c, k, r) of
            (i', msg', cc', mk', rd') \<Rightarrow> (msg', cc', mk'))
         = scan msgLen (decode_all (drop (i + 8) (lsbs bytes))) (m, c, k)" for m c k r
      using True less.prems by (intro less.hyps) auto
    show ?thesis
      using True
      by (subst unhide_loop.simps, subst inner) (simp add: dec IH Let_def)
  qed
qed

lemma until_zero_simps [simp]:
  "until_zero [] = []"
  "until_zero (d # ds) = (if d = 0 then [] else d # until_zero ds)"
  by (simp_all add: until_zero_def)

lemma until_zero_NUL: "until_zero (xs @ 0 # ys) = until_zero xs"
  by (induction xs) simp_all

lemma until_zero_id: "0 \<notin> set ds \<Longrightarrow> until_zero ds = ds"
  by (induction ds) auto

lemma scan_bounded:
  assumes "length msg < L"
  shows "fst (scan (int L) ds (msg, cc, mk)) =
         msg @ map of_nat (take (L - length msg) (until_zero ds))"
  using assms
proof (induction ds arbitrary: msg cc mk)
  case Nil
  then show ?case by simp
next
  case (Cons d ds)
  show ?case
  proof (cases "d = 0 \<or> Suc (length msg) = L")
    case True
    with Cons.prems show ?thesis
      by (auto simp: fromCharCode_def)
  next
    case False
    with Cons.prems have "length (msg @ fromCharCode d) < L"
      by (simp add: fromCharCode_def)
    from Cons.IH [OF this] False Cons.prems show ?thesis
      by (simp add: fromCharCode_def take_Cons')
  qed
qed

lemma scan_unbounded:
  assumes "msgLen \<le> 0"
  shows "scan msgLen ds (msg, cc, mk) =
         (msg @ map of_nat (until_zero ds),
          (if 0 \<in> set ds then Some 0 else if ds = [] then cc else Some (last ds)),
          (if ds = [] then mk else Some 0))"
  using assms
  by (induction ds arbitrary: msg cc mk) (auto simp: fromCharCode_def)

lemma unhideLo_run_scan:
  "(case unhideLo_run p k msgLen of (i, msg, cc, mk, rd) \<Rightarrow> (msg, cc, mk)) =
   scan msgLen (decoded p k) ([], None, None)"
  unfolding unhideLo_run_def Let_def maxOffset_eq decoded_def CHAR_BIT_def
  by (rule unhide_loop_scan) simp_all

lemma unhideLo_bounded:
  assumes "0 < L"
  shows "unhideLo p k (int L) =
         Some (map of_nat (take L (until_zero (decoded p k))))"
proof -
  obtain i msg cc mk rd where run: "unhideLo_run p k (int L) = (i, msg, cc, mk, rd)"
    by (cases "unhideLo_run p k (int L)") auto
  with unhideLo_run_scan [of p k "int L"]
  have "scan (int L) (decoded p k) ([], None, None) = (msg, cc, mk)"
    by simp
  with scan_bounded [of "[]" L "decoded p k" None None] assms
  have "msg = map of_nat (take L (until_zero (decoded p k)))"
    by simp
  with run show ?thesis
    by (simp add: unhideLo_def)
qed

lemma unhideLo_unbounded:
  "unhideLo p k (- 1) =
     (if 0 \<in> set (decoded p k)
      then Some (map of_nat (until_zero (decoded p k)))
      else None)"
proof -
  obtain i msg cc mk rd where run: "unhideLo_run p k (- 1) = (i, msg, cc, mk, rd)"
    by (cases "unhideLo_run p k (- 1)") auto
  with unhideLo_run_scan [of p k "- 1"]
  have "scan (- 1) (decoded p k) ([], None, None) = (msg, cc, mk)"
    by simp
  then have parts: "msg = map of_nat (until_zero (decoded p k))"
    "cc = (if 0 \<in> set (decoded p k) then Some 0
          else if decoded p k = [] then None else Some (last (decoded p k)))"
    "mk = (if decoded p k = [] then None else Some 0)"
    by (simp_all add: scan_unbounded)
  have "(mk \<noteq> Some 0 \<or> cc \<noteq> Some 0) = (0 \<notin> set (decoded p k))"
  proof (cases "decoded p k = []")
    case True
    with parts show ?thesis by simp
  next
    case False
    then have "0 \<notin> set (decoded p k) \<Longrightarrow> last (decoded p k) \<noteq> 0"
      by (metis last_in_set)
    with False parts show ?thesis by auto
  qed
  with run parts(1) show ?thesis
    by (simp add: unhideLo_def)
qed

subsection \<open>The loops of hide\<close>

lemma hide_bits_step:
  "msk \<noteq> 0 \<Longrightarrow>
   hide_bits c msk (bytes, bi) =
   hide_bits c (drop_bit 1 msk) (bytes[bi := set_lsb (c AND msk \<noteq> 0) (bytes ! bi)], bi + 1)"
  by (subst hide_bits.simps) (simp only: u8_put_clear u8_put_set, simp)

lemma hide_bits_stop: "hide_bits c 0 st = st"
  by (cases st) (simp add: hide_bits.simps)

lemma hide_bits_pow2:
  "hide_bits c (2 ^ k) (bytes, bi) = (put_bits (map (bit c) (rev [0..<Suc k])) bytes bi, bi + Suc k)"
proof (induction k arbitrary: bytes bi)
  case 0
  have "(c AND 1 \<noteq> 0) = bit c 0"
    using and_exp_eq_0_iff_not_bit [of c 0] by simp
  then show ?case
    using hide_bits_step [of 1 c bytes bi] by (simp add: hide_bits_stop)
next
  case (Suc k)
  have "(c AND 2 ^ Suc k \<noteq> 0) = bit c (Suc k)"
    using and_exp_eq_0_iff_not_bit [of c "Suc k"] by simp
  then have "hide_bits c (2 ^ Suc k) (bytes, bi) =
             hide_bits c (2 ^ k) (bytes[bi := set_lsb (bit c (Suc k)) (bytes ! bi)], bi + 1)"
    using hide_bits_step [of "2 ^ Suc k" c bytes bi] by (simp add: drop_bit_Suc)
  then show ?case
    by (simp add: Suc.IH del: upt_Suc) (simp add: upt_Suc)
qed

lemma hide_bits_byte:
  "hide_bits c (push_bit (CHAR_BIT - 1) 1) (bytes, bi) = (put_bits (bits8 c) bytes bi, bi + 8)"
  using hide_bits_pow2 [of c 7 bytes bi]
  by (simp add: CHAR_BIT_def bits8_def)

lemma put_bits_append:
  "put_bits (xs @ ys) bytes j = put_bits ys (put_bits xs bytes j) (j + length xs)"
  by (induction xs arbitrary: bytes j) simp_all

lemma length_bits8: "length (bits8 c) = 8"
  by (simp add: bits8_def)

lemma hide_chars_put:
  "hide_chars cs (bytes, bi) =
   (put_bits (concat (map (\<lambda>c. bits8 (charCodeAt c)) cs)) bytes bi, bi + 8 * length cs)"
  by (induction cs arbitrary: bytes bi)
     (simp_all only: hide_chars.simps hide_bits_byte, simp_all add: put_bits_append length_bits8)

lemma length_put_bits: "length (put_bits bits bytes j) = length bytes"
  by (induction bits arbitrary: bytes j) simp_all

lemma nth_put_bits_outside:
  "i < j \<or> j + length bits \<le> i \<Longrightarrow> put_bits bits bytes j ! i = bytes ! i"
  by (induction bits arbitrary: bytes j) auto

lemma upper_put_bits: "map (drop_bit 1) (put_bits bits bytes j) = map (drop_bit 1) bytes"
proof (induction bits arbitrary: bytes j)
  case Nil
  show ?case by simp
next
  case (Cons b bs)
  have "map (drop_bit 1) (bytes[j := set_lsb b (bytes ! j)]) = map (drop_bit 1) bytes"
    by (cases "j < length bytes")
       (simp_all add: map_update drop_bit_set_lsb list_update_beyond list_update_same_conv)
  with Cons.IH show ?case by simp
qed

lemma lsbs_put_bits:
  "j + length bits \<le> length bytes \<Longrightarrow>
   lsbs (put_bits bits bytes j) = take j (lsbs bytes) @ bits @ drop (j + length bits) (lsbs bytes)"
proof (induction bits arbitrary: bytes j)
  case Nil
  show ?case by simp
next
  case (Cons b bs)
  let ?bytes = "bytes[j := set_lsb b (bytes ! j)]"
  from Cons.prems have j: "j < length bytes" by simp
  then have upd: "lsbs ?bytes = (lsbs bytes)[j := b]"
    by (simp add: lsbs_def map_update bit0_set_lsb)
  from Cons.prems have "Suc j + length bs \<le> length ?bytes" by simp
  from Cons.IH [OF this] have "lsbs (put_bits (b # bs) bytes j) =
      take (Suc j) ((lsbs bytes)[j := b]) @ bs @ drop (Suc j + length bs) ((lsbs bytes)[j := b])"
    by (simp add: upd)
  also have "take (Suc j) ((lsbs bytes)[j := b]) = take j (lsbs bytes) @ [b]"
    using j by (simp add: take_Suc_conv_app_nth lsbs_def)
  also have "drop (Suc j + length bs) ((lsbs bytes)[j := b]) = drop (Suc j + length bs) (lsbs bytes)"
    by simp
  finally show ?case by simp
qed

subsection \<open>Iterating a string\<close>

lemma length_string_iter: "length (string_iter s) \<le> length s"
  by (induction s rule: string_iter.induct) auto

lemma string_iter_not_lead: "\<not> is_lead u \<Longrightarrow> string_iter (u # s) = [u] # string_iter s"
  by (cases s) simp_all

lemma string_iter_magic:
  "string_iter (STEG_MAGIC @ s) = [[0x73], [0x74], [0x67]] @ string_iter s"
  by (simp add: STEG_MAGIC_def string_iter_not_lead is_lead_def)

lemma string_iter_snoc_NUL: "string_iter (s @ [0]) = string_iter s @ [[0]]"
  by (induction s rule: string_iter.induct) (simp_all add: is_trail_def)

lemma string_iter_bytes:
  "\<forall>u\<in>set s. u < 256 \<Longrightarrow> string_iter s = map (\<lambda>u. [u]) s"
proof (induction s)
  case Nil
  show ?case by simp
next
  case (Cons u s)
  then have "u < 256" by simp
  moreover have "(256 :: u16) \<le> 0xD800" by simp
  ultimately have "u < 0xD800" by (rule less_le_trans)
  then have "\<not> is_lead u" by (auto simp: is_lead_def)
  with Cons show ?case by (simp add: string_iter_not_lead)
qed

subsection \<open>Decoding\<close>

lemma val_bits_bit: "val_bits (map (bit c) (rev [0..<n])) = take_bit n c"
  by (induction n) (simp_all add: take_bit_Suc_from_most)

lemma val_bits_bits8: "val_bits (bits8 c) = c mod 256"
  by (simp add: bits8_def val_bits_bit take_bit_eq_mod)

lemma decode_all_append8: "length xs = 8 \<Longrightarrow> decode_all (xs @ ys) = val_bits xs # decode_all ys"
  by (subst decode_all.simps) simp

lemma decode_all_concat:
  "\<forall>xs\<in>set xss. length xs = 8 \<Longrightarrow>
   decode_all (concat xss @ ys) = map val_bits xss @ decode_all ys"
  by (induction xss) (simp_all add: decode_all_append8)

lemma decode_all_drop: "decode_all (drop (k * 8) bits) = drop k (decode_all bits)"
proof (induction k arbitrary: bits)
  case 0
  show ?case by simp
next
  case (Suc k)
  show ?case
  proof (cases "length bits < 8")
    case True
    then show ?thesis by (simp add: decode_all_short)
  next
    case False
    then have "decode_all bits = val_bits (take 8 bits) # decode_all (drop 8 bits)"
      by (simp add: decode_all_step)
    with Suc.IH [of "drop 8 bits"] show ?thesis
      by (simp add: add.commute)
  qed
qed

lemma STEG_MAGIC_LEN_eq: "STEG_MAGIC_LEN = 3"
  by (simp add: STEG_MAGIC_LEN_def STEG_MAGIC_def)

lemma unhideLo_run_nat:
  "unhideLo_run p msgCharOffset msgLen =
     unhide_loop (pixelBytes p) (length (pixelBytes p) div 8 * 8) msgLen
       (msgCharOffset * CHAR_BIT, [], None, None, [])"
  by (simp add: unhideLo_run_def maxOffset_eq Let_def)

lemma hide_eq:
  "hide p msg =
     (if checkMagic p then Inl STEG_MSG
      else if length (pixelBytes p) div 8 < length msg + 4 then Inl STEG_TOO_BIG
      else Inr (p\<lparr>pixelBytes := embed msg (pixelBytes p)\<rparr>))"
  unfolding hide_def capacity_test_eq
  by (simp add: hide_chars_put embed_def STEG_MAGIC_LEN_eq)

lemma length_concat_bits8:
  "length (concat (map (\<lambda>c. bits8 (charCodeAt c)) cs)) = 8 * length cs"
  by (induction cs) (simp_all add: length_bits8)

lemma decode_embed:
  assumes "length msg + 4 \<le> length bytes div 8"
  shows "decode_all (lsbs (embed msg bytes)) =
         [0x73, 0x74, 0x67] @ payload_of msg @ [0] @
         decode_all (drop ((length (string_iter msg) + 4) * 8) (lsbs bytes))"
proof -
  let ?cs = "string_iter (STEG_MAGIC @ msg @ [0])"
  let ?bits = "concat (map (\<lambda>c. bits8 (charCodeAt c)) ?cs)"
  have cs: "?cs = [[0x73], [0x74], [0x67]] @ string_iter msg @ [[0]]"
    by (simp only: string_iter_magic string_iter_snoc_NUL)
  have len_cs: "length ?cs = length (string_iter msg) + 4"
    by (simp add: cs)
  have "length ?cs \<le> length msg + 4"
    using length_string_iter [of msg] by (simp add: len_cs)
  with assms have fits: "0 + length ?bits \<le> length bytes"
    by (simp add: length_concat_bits8)
  have "lsbs (embed msg bytes) = ?bits @ drop (length ?bits) (lsbs bytes)"
    unfolding embed_def using lsbs_put_bits [OF fits] by simp
  also have "decode_all \<dots> =
      map val_bits (map (\<lambda>c. bits8 (charCodeAt c)) ?cs) @ decode_all (drop (length ?bits) (lsbs bytes))"
    by (rule decode_all_concat) (auto simp: length_bits8)
  also have "map val_bits (map (\<lambda>c. bits8 (charCodeAt c)) ?cs) =
      map (\<lambda>c. charCodeAt c mod 256) ?cs"
    by (simp add: val_bits_bits8)
  also have "\<dots> = [0x73, 0x74, 0x67] @ payload_of msg @ [0]"
    by (simp only: cs) (simp add: payload_of_def charCodeAt_def)
  also have "length ?bits = (length (string_iter msg) + 4) * 8"
    by (simp only: length_concat_bits8 len_cs mult.commute)
  finally show ?thesis by simp
qed

lemma decoded_hide:
  assumes "hide p msg = Inr p'"
  shows "decoded p' 0 = [0x73, 0x74, 0x67] @ payload_of msg @ [0] @
           decoded p (length (string_iter msg) + 4)"
proof -
  from assms have fits: "length msg + 4 \<le> length (pixelBytes p) div 8"
    and p': "p' = p\<lparr>pixelBytes := embed msg (pixelBytes p)\<rparr>"
    by (auto simp: hide_eq split: if_splits)
  from decode_embed [OF fits] show ?thesis
    by (simp add: decoded_def p')
qed

lemma decoded_drop: "decoded p k = drop k (decoded p 0)"
  by (simp add: decoded_def decode_all_drop)

lemma checkMagic_hide:
  assumes "hide p msg = Inr p'"
  shows "checkMagic p'"
proof -
  have "unhideLo p' 0 (int 3) =
        Some (map of_nat (take 3 (until_zero (decoded p' 0))))"
    by (rule unhideLo_bounded) simp
  then show ?thesis
    by (simp add: decoded_hide [OF assms] checkMagic_def STEG_MAGIC_LEN_eq STEG_MAGIC_def)
qed

lemma unhide_hide:
  assumes "hide p msg = Inr p'"
  shows "unhide p' = Inr (map of_nat (until_zero (payload_of msg)))"
proof -
  have "decoded p' 3 = payload_of msg @ 0 # decoded p (length (string_iter msg) + 4)"
    by (subst decoded_drop) (simp add: decoded_hide [OF assms])
  then have "unhideLo p' 3 (- 1) =
             Some (map of_nat (until_zero (payload_of msg)))"
    by (simp add: unhideLo_unbounded until_zero_NUL)
  with checkMagic_hide [OF assms] show ?thesis
    by (simp add: unhide_def STEG_MAGIC_LEN_eq)
qed

lemma length_decode_all: "length (decode_all bits) = length bits div 8"
proof (induction bits rule: decode_all.induct)
  case (1 bits)
  show ?case
  proof (cases "length bits < 8")
    case True
    then show ?thesis by (simp add: decode_all_short)
  next
    case False
    with 1 have "length (decode_all (drop 8 bits)) = (length bits - 8) div 8" by simp
    with False show ?thesis
      by (simp add: decode_all_step)
  qed
qed

lemma decode_all_append:
  "8 dvd length xs \<Longrightarrow> decode_all (xs @ ys) = decode_all xs @ decode_all ys"
proof (induction xs rule: decode_all.induct)
  case (1 bits)
  show ?case
  proof (cases "length bits < 8")
    case True
    with "1.prems" have "bits = []" by (auto elim!: dvdE)
    then show ?thesis by (simp add: decode_all_short)
  next
    case False
    with "1.prems" have "8 dvd length (drop 8 bits)" by (simp add: dvd_diff_nat)
    with 1 False have IH: "decode_all (drop 8 bits @ ys) = decode_all (drop 8 bits) @ decode_all ys"
      by simp
    have "decode_all (bits @ ys) = decode_all (take 8 bits @ (drop 8 bits @ ys))"
      by (subst append_assoc [symmetric]) simp
    also have "\<dots> = val_bits (take 8 bits) # decode_all (drop 8 bits @ ys)"
      using False by (intro decode_all_append8) simp
    finally show ?thesis
      using False by (simp add: IH decode_all_step [of bits])
  qed
qed

lemma decode_all_take:
  assumes "k * 8 \<le> length bits"
  shows "decode_all (take (k * 8) bits) = take k (decode_all bits)"
proof -
  have len: "length (take (k * 8) bits) = k * 8"
    using assms by simp
  have "decode_all bits = decode_all (take (k * 8) bits @ drop (k * 8) bits)"
    by simp
  also have "\<dots> = decode_all (take (k * 8) bits) @ decode_all (drop (k * 8) bits)"
    by (rule decode_all_append) (simp only: len, simp)
  finally have "take k (decode_all bits) =
      take k (decode_all (take (k * 8) bits) @ decode_all (drop (k * 8) bits))"
    by simp
  also have "\<dots> = decode_all (take (k * 8) bits)"
    by (simp add: length_decode_all len del: length_take)
  finally show ?thesis by simp
qed

lemma length_until_zero: "length (until_zero ds) \<le> length ds"
  by (simp add: until_zero_def length_takeWhile_le)

lemma length_decoded: "length (decoded p k) = length (pixelBytes p) div 8 - k"
  by (simp add: decoded_def length_decode_all lsbs_def) 

lemma checkMagic_eq:
  "checkMagic p = (map of_nat (take 3 (until_zero (decoded p 0))) = STEG_MAGIC)"
  using unhideLo_bounded [of 3 p 0]
  by (simp add: checkMagic_def STEG_MAGIC_LEN_eq)

lemma unhide_eq:
  "unhide p =
     (if map of_nat (take 3 (until_zero (decoded p 0))) \<noteq> STEG_MAGIC then Inl STEG_NO_MSG
      else if 0 \<in> set (drop 3 (decoded p 0))
           then Inr (map of_nat (until_zero (drop 3 (decoded p 0))))
           else Inl STEG_BAD_MSG)"
  by (simp add: unhide_def checkMagic_eq STEG_MAGIC_LEN_eq unhideLo_unbounded
      decoded_drop [of p 3])

lemma short_image_no_magic:
  assumes "length (pixelBytes p) < 24"
  shows "\<not> checkMagic p"
proof -
  have "length (decoded p 0) < 3"
    using assms by (simp add: length_decoded)
  with length_until_zero [of "decoded p 0"]
  have "length (map (of_nat :: nat \<Rightarrow> u16) (take 3 (until_zero (decoded p 0)))) < 3"
    by simp
  then show ?thesis
    by (auto simp: checkMagic_eq STEG_MAGIC_def)
qed

subsection \<open>Evaluation\<close>

text \<open>Code equations without rational numbers, for evaluating the functions on concrete images.\<close>

lemma hide_code [code]:
  "hide p msg =
     (if checkMagic p then Inl STEG_MSG
      else if length (pixelBytes p) div 8 < STEG_MAGIC_LEN + length msg + 1 then Inl STEG_TOO_BIG
      else
        (case Ppm (OfPpm p) of
           Inl e \<Rightarrow> Inl e
         | Inr ppmOut \<Rightarrow>
             let bytes = pixelBytes ppmOut;
                 byteIndex = 0;
                 magicMsg = STEG_MAGIC @ msg @ [0];
                 (bytes', byteIndex') = hide_chars (string_iter magicMsg) (bytes, byteIndex)
             in Inr (ppmOut\<lparr>pixelBytes := bytes'\<rparr>)))"
  unfolding hide_def capacity_test_eq by (rule refl)

declare unhideLo_run_nat [code]

subsection \<open>Messages of bytes\<close>

lemma payload_of_bytes:
  assumes "\<forall>u\<in>set s. u < 256"
  shows "payload_of s = map unat s"
proof -
  have "unat u mod 256 = unat u" if "u \<in> set s" for u
    using assms that by (auto simp: word_less_nat_alt)
  then show ?thesis
    by (simp add: payload_of_def string_iter_bytes [OF assms] charCodeAt_def comp_def)
qed

lemma take_until_zero:
  "0 \<notin> set (take n ds) \<Longrightarrow> take n (until_zero ds) = take n ds"
proof (induction ds arbitrary: n)
  case Nil
  show ?case by simp
next
  case (Cons d ds)
  then show ?case by (cases n) auto
qed

subsection \<open>Reads, whole groups and the terminator\<close>

lemma unhide_bits_reads:
  "unhide_bits bytes maxOffset (msk, cc, i, rd) = (msk', cc', i', rd') \<Longrightarrow>
   set rd' \<subseteq> set rd \<union> {..<maxOffset}"
proof (induction bytes maxOffset "(msk, cc, i, rd)"
       arbitrary: msk cc i rd rule: unhide_bits.induct)
  case (1 bytes maxOffset msk cc i rd)
  show ?case
  proof (cases "msk \<noteq> 0 \<and> i < maxOffset")
    case True
    with "1.prems" have "unhide_bits bytes maxOffset
          (drop_bit 1 msk, (if u8_get bytes i AND 1 \<noteq> 0 then cc OR msk else cc),
           i + 1, rd @ [i]) = (msk', cc', i', rd')"
      by (simp add: unhide_bits_step)
    from "1.hyps" [OF True this] True show ?thesis by auto
  next
    case False
    with "1.prems" show ?thesis
      by (auto simp: unhide_bits_stop)
  qed
qed

lemma unhide_loop_reads:
  "unhide_loop bytes maxOffset msgLen (i, msg, cc, mk, rd) = (i', msg', cc', mk', rd') \<Longrightarrow>
   set rd' \<subseteq> set rd \<union> {..<maxOffset}"
proof (induction "maxOffset - i" arbitrary: i msg cc mk rd rule: less_induct)
  case less
  show ?case
  proof (cases "i < maxOffset")
    case False
    with less.prems show ?thesis
      by (subst (asm) unhide_loop.simps) auto
  next
    case True
    obtain m1 c1 i1 r1 where inner:
      "unhide_bits bytes maxOffset (push_bit (CHAR_BIT - 1) 1, 0, i, rd) = (m1, c1, i1, r1)"
      by (metis prod_cases4)
    from unhide_bits_reads [OF inner] have r1: "set r1 \<subseteq> set rd \<union> {..<maxOffset}" .
    have "i < i1"
      using unhide_bits_index_less [OF _ True inner] by (simp add: CHAR_BIT_def)
    with True have smaller: "maxOffset - i1 < maxOffset - i" by arith
    have unfolded: "unhide_loop bytes maxOffset msgLen (i, msg, cc, mk, rd) =
        (if c1 = 0 then (i1, msg, Some c1, Some m1, r1)
         else if msgLen > 0 \<and> int (length (msg @ fromCharCode c1)) \<ge> msgLen
              then (i1, msg @ fromCharCode c1, Some c1, Some m1, r1)
              else unhide_loop bytes maxOffset msgLen
                     (i1, msg @ fromCharCode c1, Some c1, Some m1, r1))"
      using True by (subst unhide_loop.simps, subst inner) (simp add: Let_def)
    show ?thesis
    proof (cases "c1 = 0 \<or> (msgLen > 0 \<and> int (length (msg @ fromCharCode c1)) \<ge> msgLen)")
      case True
      with less.prems unfolded r1 show ?thesis
        by (auto split: if_splits)
    next
      case False
      with less.prems unfolded
      have "unhide_loop bytes maxOffset msgLen (i1, msg @ fromCharCode c1, Some c1, Some m1, r1)
            = (i', msg', cc', mk', rd')"
        by (simp split: if_splits)
      from less.hyps [OF smaller this] r1 show ?thesis
        by auto
    qed
  qed
qed

lemma unhideLo_reads_bound:
  "set (unhideLo_reads p k msgLen) \<subseteq> {..<length (pixelBytes p) div 8 * 8}"
proof -
  obtain i msg cc mk rd where run: "unhideLo_run p k msgLen = (i, msg, cc, mk, rd)"
    by (metis prod_cases5)
  then have "set rd \<subseteq> set [] \<union> {..<length (pixelBytes p) div 8 * 8}"
    unfolding unhideLo_run_nat by (rule unhide_loop_reads)
  with run show ?thesis
    by (simp add: unhideLo_reads_def)
qed

lemma decode_all_tail:
  assumes "8 dvd length xs" and "length ys < 8"
  shows "decode_all (xs @ ys) = decode_all xs"
  using assms by (simp add: decode_all_append decode_all_short)

lemma decoded_whole_groups:
  assumes "length rest = length (pixelBytes p) mod 8"
  shows "decoded (p\<lparr>pixelBytes := take (length (pixelBytes p) div 8 * 8) (pixelBytes p) @ rest\<rparr>) 0
         = decoded p 0"
proof -
  let ?m = "length (pixelBytes p) div 8 * 8"
  let ?xs = "lsbs (take ?m (pixelBytes p))"
  have len: "length ?xs = ?m"
    by (simp add: lsbs_def)
  have dvd: "8 dvd length ?xs"
    by (simp only: len) simp
  have short_rest: "length (lsbs rest) < 8"
    using assms by (simp add: lsbs_def)
  have "length (pixelBytes p) - ?m < 8"
    by arith
  then have short_tail: "length (lsbs (drop ?m (pixelBytes p))) < 8"
    by (simp add: lsbs_def)
  have "decode_all (?xs @ lsbs rest) = decode_all ?xs"
    using dvd short_rest by (rule decode_all_tail)
  moreover have "decode_all (?xs @ lsbs (drop ?m (pixelBytes p))) = decode_all ?xs"
    using dvd short_tail by (rule decode_all_tail)
  moreover have "?xs @ lsbs (drop ?m (pixelBytes p)) = lsbs (pixelBytes p)"
    by (simp add: lsbs_def flip: map_append)
  moreover have "lsbs (take ?m (pixelBytes p) @ rest) = ?xs @ lsbs rest"
    by (simp add: lsbs_def)
  ultimately show ?thesis
    by (simp add: decoded_def)
qed

lemma decoded_replace_group:
  assumes "k * 8 + 8 \<le> length (pixelBytes p)" and "length grp = 8"
  shows "decoded (p\<lparr>pixelBytes := take (k * 8) (pixelBytes p) @ grp @
                                    drop (k * 8 + 8) (pixelBytes p)\<rparr>) 0
         = take k (decoded p 0) @ val_bits (lsbs grp) # drop (k + 1) (decoded p 0)"
proof -
  let ?L = "lsbs (pixelBytes p)"
  have k8: "k * 8 \<le> length ?L"
    using assms(1) by (simp add: lsbs_def)
  have len: "length (take (k * 8) ?L) = k * 8"
    using k8 by simp
  have "lsbs (take (k * 8) (pixelBytes p) @ grp @ drop (k * 8 + 8) (pixelBytes p))
        = take (k * 8) ?L @ (lsbs grp @ drop ((k + 1) * 8) ?L)"
    by (simp add: lsbs_def take_map drop_map add.commute)
  also have "decode_all \<dots> =
      decode_all (take (k * 8) ?L) @ decode_all (lsbs grp @ drop ((k + 1) * 8) ?L)"
    by (rule decode_all_append) (simp only: len, simp)
  also have "decode_all (take (k * 8) ?L) = take k (decode_all ?L)"
    using k8 by (rule decode_all_take)
  also have "decode_all (lsbs grp @ drop ((k + 1) * 8) ?L)
             = val_bits (lsbs grp) # decode_all (drop ((k + 1) * 8) ?L)"
    using assms(2) by (intro decode_all_append8) (simp add: lsbs_def)
  also have "decode_all (drop ((k + 1) * 8) ?L) = drop (k + 1) (decode_all ?L)"
    by (rule decode_all_drop)
  finally show ?thesis
    by (simp add: decoded_def)
qed

lemma take_prefix: "length xs = k \<Longrightarrow> take k (xs @ ys) = xs"
  by simp

lemma drop_prefix: "length xs = k \<Longrightarrow> drop (k + 1) (xs @ y # ys) = ys"
  by simp

lemma length_payload_of: "length (payload_of s) = length (string_iter s)"
  by (simp add: payload_of_def)

subsection \<open>hide on the store\<close>

lemma Ppm_copy_eq:
  assumes "o_hdrBytes src < length s" and "o_pixelBytes src < length s"
  shows "Ppm_copy s src =
         (src\<lparr>o_hdrBytes := length s, o_pixelBytes := Suc (length s)\<rparr>,
          s @ [s ! o_hdrBytes src, s ! o_pixelBytes src])"
  using assms by (simp add: Ppm_copy_def array_slice_def nth_append)

lemma hide_in_store_eq:
  assumes "o_hdrBytes src < length s" and "o_pixelBytes src < length s"
  shows "hide_in_store s src msg =
     (if checkMagic (value_of s src) then (Inl STEG_MSG, s)
      else if length (s ! o_pixelBytes src) div 8 < length msg + 4 then (Inl STEG_TOO_BIG, s)
      else (Inr (src\<lparr>o_hdrBytes := length s, o_pixelBytes := Suc (length s)\<rparr>),
            s @ [s ! o_hdrBytes src, embed msg (s ! o_pixelBytes src)]))"
  unfolding hide_in_store_def capacity_test_eq Ppm_copy_eq [OF assms]
  by (simp add: hide_chars_put embed_def STEG_MAGIC_LEN_eq nth_append list_update_append)

lemma length_embed: "length (embed msg bytes) = length bytes"
  by (simp add: embed_def length_put_bits)

lemma embed_upper_bits:
  assumes "i < length bytes"
  shows "drop_bit 1 (embed msg bytes ! i) = drop_bit 1 (bytes ! i)"
proof -
  have "map (drop_bit 1) (embed msg bytes) ! i = map (drop_bit 1) bytes ! i"
    by (simp only: embed_def upper_put_bits)
  with assms show ?thesis
    by (simp add: length_embed)
qed

lemma embed_outside:
  assumes "8 * (length msg + 4) \<le> i"
  shows "embed msg bytes ! i = bytes ! i"
proof -
  let ?cs = "string_iter (STEG_MAGIC @ msg @ [0])"
  have "length ?cs \<le> length msg + 4"
    using length_string_iter [of "STEG_MAGIC @ msg @ [0]"] by (simp add: STEG_MAGIC_def)
  with assms have "0 + length (concat (map (\<lambda>c. bits8 (charCodeAt c)) ?cs)) \<le> i"
    by (simp only: length_concat_bits8) arith
  then show ?thesis
    unfolding embed_def by (intro nth_put_bits_outside) simp
qed

section \<open>The claims\<close>

text \<open>
  C1 (amended). For every image on which \<open>checkMagic\<close> is false, and every message of
  bytes (code units below 256) none of which is zero, of a length \<open>n\<close> with
  \<open>n \<le> capacityBytes(pixelBytes.length) - 4\<close>: \<open>hide\<close> succeeds, and \<open>unhide\<close> on the image
  it returns gives back exactly the message. This holds for every image, and so for
  those that the constructor builds from a buffer.
\<close>

theorem hide_unhide_roundtrip:
  assumes "\<not> checkMagic img"
    and "\<forall>u\<in>set message. u \<noteq> 0 \<and> u < 256"
    and "int (length message) \<le> int (capacityBytes (length (pixelBytes img))) - 4"
  shows "\<exists>hidden. hide img message = Inr hidden \<and> unhide hidden = Inr message"
proof -
  from assms(3) have "\<not> length (pixelBytes img) div 8 < length message + 4"
    by (simp add: capacityBytes_def)
  with assms(1) obtain hidden where hidden: "hide img message = Inr hidden"
    by (simp only: hide_eq) simp
  from assms(2) have "payload_of message = map unat message"
    by (simp add: payload_of_bytes)
  moreover from assms(2) have "0 \<notin> set (map unat message)"
    by (auto simp: unat_eq_0)
  ultimately have "until_zero (payload_of message) = map unat message"
    by (simp add: until_zero_id)
  then have "unhide hidden = Inr (map of_nat (map unat message))"
    by (simp add: unhide_hide [OF hidden])
  also have "map of_nat (map unat message) = message"
    by (simp add: comp_def)
  finally show ?thesis using hidden by simp
qed

theorem hide_unhide_roundtrip_witness:
  "\<exists>hidden. hide (blank 16) [0x48, 0x69] = Inr hidden \<and> unhide hidden = Inr [0x48, 0x69]"
proof -
  have "\<not> checkMagic (blank 16)"
    by code_simp
  moreover have "\<forall>u\<in>set [0x48, 0x69 :: u16]. u \<noteq> 0 \<and> u < 256"
    by simp
  moreover have "int (length [0x48, 0x69 :: u16])
                 \<le> int (capacityBytes (length (pixelBytes (blank 16)))) - 4"
    by (simp add: capacityBytes_def blank_def)
  ultimately show ?thesis
    by (rule hide_unhide_roundtrip)
qed

text \<open>
  The claim as stated fails in two ways. The 14 by 1 image parsed from a buffer of zero
  pixel bytes takes the one-byte message \<open>"\0"\<close>, and \<open>unhide\<close> then returns the empty
  message: the zero byte is read as the terminator. And on a parsed 11 by 1 image whose
  pixel bytes already begin with the prefix, \<open>hide\<close> of the empty message fails with
  \<open>STEG_MSG\<close>.
\<close>

theorem hide_unhide_roundtrip_counterexample:
  "Ppm (OfBytes ([0x50, 0x36, 0x20, 0x31, 0x34, 0x20, 0x31, 0x20, 0x32, 0x35, 0x35, 0x0A]
                 @ replicate 42 0))
     = Inr \<lparr>width = 14, height = 1, maxColors = 255,
            hdrBytes = [0x50, 0x36, 0x20, 0x31, 0x34, 0x20, 0x31, 0x20, 0x32, 0x35, 0x35, 0x0A],
            pixelBytes = replicate 42 0\<rparr>
   \<and> int (length [0 :: u16]) \<le> int (capacityBytes 42) - 4
   \<and> hide \<lparr>width = 14, height = 1, maxColors = 255,
            hdrBytes = [0x50, 0x36, 0x20, 0x31, 0x34, 0x20, 0x31, 0x20, 0x32, 0x35, 0x35, 0x0A],
            pixelBytes = replicate 42 0\<rparr> [0]
     = Inr \<lparr>width = 14, height = 1, maxColors = 255,
            hdrBytes = [0x50, 0x36, 0x20, 0x31, 0x34, 0x20, 0x31, 0x20, 0x32, 0x35, 0x35, 0x0A],
            pixelBytes = stg_bits @ replicate 18 0\<rparr>
   \<and> unhide \<lparr>width = 14, height = 1, maxColors = 255,
            hdrBytes = [0x50, 0x36, 0x20, 0x31, 0x34, 0x20, 0x31, 0x20, 0x32, 0x35, 0x35, 0x0A],
            pixelBytes = stg_bits @ replicate 18 0\<rparr>
     = Inr []
   \<and> Ppm (OfBytes ([0x50, 0x36, 0x20, 0x31, 0x31, 0x20, 0x31, 0x20, 0x32, 0x35, 0x35, 0x0A]
                 @ stg_bits @ replicate 9 0))
     = Inr \<lparr>width = 11, height = 1, maxColors = 255,
            hdrBytes = [0x50, 0x36, 0x20, 0x31, 0x31, 0x20, 0x31, 0x20, 0x32, 0x35, 0x35, 0x0A],
            pixelBytes = stg_bits @ replicate 9 0\<rparr>
   \<and> int (length ([] :: jsstring)) \<le> int (capacityBytes 33) - 4
   \<and> hide \<lparr>width = 11, height = 1, maxColors = 255,
            hdrBytes = [0x50, 0x36, 0x20, 0x31, 0x31, 0x20, 0x31, 0x20, 0x32, 0x35, 0x35, 0x0A],
            pixelBytes = stg_bits @ replicate 9 0\<rparr> []
     = Inl STEG_MSG"
  by (intro conjI; code_simp)

text \<open>
  C2 (amended). \<open>hide\<close> fails with \<open>STEG_TOO_BIG\<close> if and only if \<open>checkMagic\<close> is false on
  the image and \<open>3 + message.length + 1 > capacityBytes(pixelBytes.length)\<close>, where
  \<open>capacityBytes(n) = floor(n / 8)\<close>. In particular, on an image without the prefix and
  with \<open>max = capacityBytes(pixels) - 4\<close>, a message of length \<open>max\<close> is hidden, a message of
  length \<open>max + 1\<close> fails with \<open>STEG_TOO_BIG\<close>, and on every image of 6 pixel bytes the
  empty message fails with \<open>STEG_TOO_BIG\<close>.
\<close>

theorem hide_capacity_error:
  "(hide img message = Inl STEG_TOO_BIG) =
     (\<not> checkMagic img \<and> capacityBytes (length (pixelBytes img)) < 3 + length message + 1)
   \<and> (\<not> checkMagic img \<and>
        int (length message) = int (capacityBytes (length (pixelBytes img))) - 4 \<longrightarrow>
        (\<exists>hidden. hide img message = Inr hidden))
   \<and> (\<not> checkMagic img \<and>
        int (length message) = int (capacityBytes (length (pixelBytes img))) - 4 + 1 \<longrightarrow>
        hide img message = Inl STEG_TOO_BIG)
   \<and> (length (pixelBytes img) = 6 \<longrightarrow> hide img [] = Inl STEG_TOO_BIG)"
proof (intro conjI impI)
  show "(hide img message = Inl STEG_TOO_BIG) =
     (\<not> checkMagic img \<and> capacityBytes (length (pixelBytes img)) < 3 + length message + 1)"
    by (simp only: hide_eq capacityBytes_def) (simp split: if_splits)
next
  assume "\<not> checkMagic img \<and>
        int (length message) = int (capacityBytes (length (pixelBytes img))) - 4"
  then have "\<not> checkMagic img" "\<not> length (pixelBytes img) div 8 < length message + 4"
    by (simp_all add: capacityBytes_def)
  then show "\<exists>hidden. hide img message = Inr hidden"
    by (simp only: hide_eq) simp
next
  assume "\<not> checkMagic img \<and>
        int (length message) = int (capacityBytes (length (pixelBytes img))) - 4 + 1"
  then have "\<not> checkMagic img" "length (pixelBytes img) div 8 < length message + 4"
    by (simp_all add: capacityBytes_def)
  then show "hide img message = Inl STEG_TOO_BIG"
    by (simp only: hide_eq) simp
next
  assume six: "length (pixelBytes img) = 6"
  then have "\<not> checkMagic img"
    by (intro short_image_no_magic) simp
  with six show "hide img [] = Inl STEG_TOO_BIG"
    by (simp only: hide_eq) simp
qed

theorem hide_capacity_error_witness:
  "(\<exists>hidden. hide (blank 16) [0x48, 0x69] = Inr hidden)
   \<and> hide (blank 16) [0x48, 0x69, 0x21] = Inl STEG_TOO_BIG
   \<and> hide (blank 2) [] = Inl STEG_TOO_BIG
   \<and> hide (marked 8 []) [] \<noteq> Inl STEG_TOO_BIG"
proof -
  have clean: "\<not> checkMagic (blank 16)"
    by code_simp
  have cap: "capacityBytes (length (pixelBytes (blank 16))) = 6"
    by code_simp
  have six: "length (pixelBytes (blank 2)) = 6"
    by code_simp
  have already: "checkMagic (marked 8 [])"
    by code_simp
  from hide_capacity_error [of "blank 16" "[0x48, 0x69]"] clean cap
  have "\<exists>hidden. hide (blank 16) [0x48, 0x69] = Inr hidden"
    by simp
  moreover from hide_capacity_error [of "blank 16" "[0x48, 0x69, 0x21]"] clean cap
  have "hide (blank 16) [0x48, 0x69, 0x21] = Inl STEG_TOO_BIG"
    by simp
  moreover from hide_capacity_error [of "blank 2"] six
  have "hide (blank 2) [] = Inl STEG_TOO_BIG"
    by simp
  moreover from hide_capacity_error [of "marked 8 []" "[]"] already
  have "hide (marked 8 []) [] \<noteq> Inl STEG_TOO_BIG"
    by simp
  ultimately show ?thesis
    by simp
qed

text \<open>
  On an image of 24 pixel bytes that carry the prefix, the capacity is 3 and the empty
  message needs 4 bytes, yet \<open>hide\<close> fails with \<open>STEG_MSG\<close>, not \<open>STEG_TOO_BIG\<close>: the
  test for an earlier message comes first.
\<close>

theorem hide_capacity_error_counterexample:
  "capacityBytes (length (pixelBytes (marked 8 []))) < 3 + length ([] :: jsstring) + 1
   \<and> hide (marked 8 []) [] = Inl STEG_MSG"
  by (intro conjI; code_simp)

text \<open>
  C3. Whenever the constructor accepts a buffer \<open>b\<close>, the \<open>bytes\<close> method of the image
  it builds gives \<open>b\<close> back: the header bytes followed by the pixel bytes are the buffer,
  byte for byte.
\<close>

theorem parse_bytes_identity:
  "Ppm (OfBytes b) = Inr img \<Longrightarrow> bytes_of img = b"
  by (cases "ppmFormat b") (auto simp: bytes_of_def)

theorem parse_bytes_identity_witness:
  "Ppm (OfBytes [0x50, 0x36, 0x0A, 0x32, 0x20, 0x31, 0x0A, 0x32, 0x35, 0x35, 0x0A, 9, 8, 7, 6, 5, 4])
     = Inr \<lparr>width = 2, height = 1, maxColors = 255,
            hdrBytes = [0x50, 0x36, 0x0A, 0x32, 0x20, 0x31, 0x0A, 0x32, 0x35, 0x35, 0x0A],
            pixelBytes = [9, 8, 7, 6, 5, 4]\<rparr>
   \<and> bytes_of \<lparr>width = 2, height = 1, maxColors = 255,
            hdrBytes = [0x50, 0x36, 0x0A, 0x32, 0x20, 0x31, 0x0A, 0x32, 0x35, 0x35, 0x0A],
            pixelBytes = [9, 8, 7, 6, 5, 4]\<rparr>
     = [0x50, 0x36, 0x0A, 0x32, 0x20, 0x31, 0x0A, 0x32, 0x35, 0x35, 0x0A, 9, 8, 7, 6, 5, 4]"
proof -
  have parsed:
    "Ppm (OfBytes [0x50, 0x36, 0x0A, 0x32, 0x20, 0x31, 0x0A, 0x32, 0x35, 0x35, 0x0A, 9, 8, 7, 6, 5, 4])
       = Inr \<lparr>width = 2, height = 1, maxColors = 255,
              hdrBytes = [0x50, 0x36, 0x0A, 0x32, 0x20, 0x31, 0x0A, 0x32, 0x35, 0x35, 0x0A],
              pixelBytes = [9, 8, 7, 6, 5, 4]\<rparr>"
    by code_simp
  from parse_bytes_identity [OF parsed] parsed show ?thesis
    by (rule_tac conjI)
qed

text \<open>
  C4. The header test of \<open>ppmFormat\<close> rejects a buffer only when both of its first two
  characters differ from those of \<open>'P6'\<close>. The buffer \<open>"P5 1 1 255\n"\<close> followed by
  three pixel bytes has the magic marker \<open>P5\<close>, and the constructor accepts it as a
  1 by 1 image instead of answering \<open>bad image format\<close>.
\<close>

theorem parse_accepts_wrong_magic:
  "Ppm (OfBytes [0x50, 0x35, 0x20, 0x31, 0x20, 0x31, 0x20, 0x32, 0x35, 0x35, 0x0A, 1, 2, 3])
     = Inr \<lparr>width = 1, height = 1, maxColors = 255,
            hdrBytes = [0x50, 0x35, 0x20, 0x31, 0x20, 0x31, 0x20, 0x32, 0x35, 0x35, 0x0A],
            pixelBytes = [1, 2, 3]\<rparr>"
  by code_simp

text \<open>
  C5 (amended). \<open>unhideLo\<close> with a positive \<open>msgLen\<close> returns the bytes that the groups of
  8 pixel bytes from the offset on encode, ending at the first of: \<open>msgLen\<close> bytes
  returned, a zero byte decoded (which is not returned), no whole group left. It
  returns exactly the first \<open>msgLen\<close> decoded bytes when that many groups exist and none of
  them encodes zero.
\<close>

theorem unhideLo_bounded_mode:
  assumes "0 < maxBytes"
  shows "unhideLo img offset (int maxBytes) =
           Some (map of_nat (take maxBytes (until_zero (decoded img offset))))
         \<and> (maxBytes \<le> length (decoded img offset) \<and>
            0 \<notin> set (take maxBytes (decoded img offset)) \<longrightarrow>
            unhideLo img offset (int maxBytes) =
              Some (map of_nat (take maxBytes (decoded img offset))))"
  using assms by (simp add: unhideLo_bounded take_until_zero)

theorem unhideLo_bounded_mode_witness:
  "unhideLo (marked 8 []) 0 (int 3) = Some [0x73, 0x74, 0x67]"
proof -
  have pos: "(0 :: nat) < 3"
    by simp
  have all: "3 \<le> length (decoded (marked 8 []) 0) \<and> 0 \<notin> set (take 3 (decoded (marked 8 []) 0))"
    by code_simp
  have val: "map of_nat (take 3 (decoded (marked 8 []) 0)) = [0x73, 0x74, 0x67 :: u16]"
    by code_simp
  from unhideLo_bounded_mode [OF pos, of "marked 8 []" 0] all
  have "unhideLo (marked 8 []) 0 (int 3) = Some (map of_nat (take 3 (decoded (marked 8 []) 0)))"
    by blast
  with val show ?thesis
    by simp
qed

text \<open>
  On 24 zero pixel bytes, \<open>unhideLo(0, 3)\<close> returns the empty string and not three bytes:
  the loop stops at the first zero byte in bounded mode too.
\<close>

theorem unhideLo_bounded_mode_counterexample:
  "unhideLo (blank 8) 0 (int 3) = Some []"
  by code_simp

text \<open>
  C6. When \<open>hide\<close> succeeds, every buffer that was in the store before the call is
  unchanged, so the input image is unchanged, header bytes and pixel bytes. The image
  returned is the one that \<open>hide\<close> on values gives; it has the header bytes of the input
  and as many pixel bytes; each of its pixel bytes agrees with the input's in its upper
  7 bits, and every pixel byte at an index from \<open>8 * (message.length + 4)\<close> on is equal to
  the input's.
\<close>

theorem hide_frame:
  assumes "o_hdrBytes src < length s" and "o_pixelBytes src < length s"
    and "hide_in_store s src msg = (Inr out, s')"
  shows "(\<forall>a<length s. s' ! a = s ! a)
       \<and> value_of s' src = value_of s src
       \<and> hide (value_of s src) msg = Inr (value_of s' out)
       \<and> hdrBytes (value_of s' out) = hdrBytes (value_of s src)
       \<and> length (pixelBytes (value_of s' out)) = length (pixelBytes (value_of s src))
       \<and> (\<forall>i<length (pixelBytes (value_of s src)).
            drop_bit 1 (pixelBytes (value_of s' out) ! i)
            = drop_bit 1 (pixelBytes (value_of s src) ! i))
       \<and> (\<forall>i<length (pixelBytes (value_of s src)). 8 * (length msg + 4) \<le> i \<longrightarrow>
            pixelBytes (value_of s' out) ! i = pixelBytes (value_of s src) ! i)"
proof -
  let ?pix = "s ! o_pixelBytes src"
  from assms(3) have ok: "\<not> checkMagic (value_of s src)" "\<not> length ?pix div 8 < length msg + 4"
    and out: "out = src\<lparr>o_hdrBytes := length s, o_pixelBytes := Suc (length s)\<rparr>"
    and s': "s' = s @ [s ! o_hdrBytes src, embed msg ?pix]"
    by (simp_all only: hide_in_store_eq [OF assms(1,2)] split: if_splits) simp_all
  have old: "\<forall>a<length s. s' ! a = s ! a"
    by (simp add: s' nth_append)
  with assms(1,2) have same: "value_of s' src = value_of s src"
    by (simp add: value_of_def)
  have vout: "value_of s' out = (value_of s src)\<lparr>pixelBytes := embed msg ?pix\<rparr>"
    by (simp add: value_of_def out s' nth_append)
  have pix: "pixelBytes (value_of s src) = ?pix"
    by (simp add: value_of_def)
  have "hide (value_of s src) msg = Inr (value_of s' out)"
    using ok by (simp only: hide_eq vout pix) simp
  moreover have "hdrBytes (value_of s' out) = hdrBytes (value_of s src)"
    by (simp add: vout)
  moreover have "length (pixelBytes (value_of s' out)) = length (pixelBytes (value_of s src))"
    by (simp add: vout pix length_embed)
  moreover have "\<forall>i<length (pixelBytes (value_of s src)).
            drop_bit 1 (pixelBytes (value_of s' out) ! i)
            = drop_bit 1 (pixelBytes (value_of s src) ! i)"
    by (simp only: vout pix) (simp add: embed_upper_bits [simplified])
  moreover have "\<forall>i<length (pixelBytes (value_of s src)). 8 * (length msg + 4) \<le> i \<longrightarrow>
            pixelBytes (value_of s' out) ! i = pixelBytes (value_of s src) ! i"
    by (simp only: vout pix) (simp add: embed_outside)
  ultimately show ?thesis
    using old same by blast
qed

theorem hide_frame_witness:
  "hide_in_store sample_store sample_object []
     = (Inr (sample_object\<lparr>o_hdrBytes := 2, o_pixelBytes := 3\<rparr>),
        sample_store @ [[0x50, 0x36, 0x0A],
          [6, 7, 1, 1, 0, 0, 1, 1,  0, 1, 1, 1, 0, 1, 0, 0,  0, 1, 1, 0, 0, 1, 1, 1,
           0, 0, 0, 0, 0, 0, 0, 0,  9, 8, 7, 6, 5, 4, 3, 2, 1, 0]])
   \<and> value_of (snd (hide_in_store sample_store sample_object [])) sample_object
       = value_of sample_store sample_object
   \<and> drop_bit 1 (pixelBytes (value_of (snd (hide_in_store sample_store sample_object []))
                                (sample_object\<lparr>o_hdrBytes := 2, o_pixelBytes := 3\<rparr>)) ! 0)
       = drop_bit 1 (pixelBytes (value_of sample_store sample_object) ! 0)
   \<and> pixelBytes (value_of (snd (hide_in_store sample_store sample_object []))
                   (sample_object\<lparr>o_hdrBytes := 2, o_pixelBytes := 3\<rparr>)) ! 33
       = pixelBytes (value_of sample_store sample_object) ! 33"
proof -
  let ?s' = "sample_store @ [[0x50, 0x36, 0x0A],
          [6, 7, 1, 1, 0, 0, 1, 1,  0, 1, 1, 1, 0, 1, 0, 0,  0, 1, 1, 0, 0, 1, 1, 1,
           0, 0, 0, 0, 0, 0, 0, 0,  9, 8, 7, 6, 5, 4, 3, 2, 1, 0]]"
  let ?out = "sample_object\<lparr>o_hdrBytes := 2, o_pixelBytes := 3\<rparr>"
  have valid: "o_hdrBytes sample_object < length sample_store"
    "o_pixelBytes sample_object < length sample_store"
    by code_simp+
  have no_magic: "\<not> checkMagic (value_of sample_store sample_object)"
    by code_simp
  have room: "\<not> length (sample_store ! o_pixelBytes sample_object) div 8
                < length ([] :: jsstring) + 4"
    by code_simp
  have header: "sample_store ! o_hdrBytes sample_object = [0x50, 0x36, 0x0A]"
    by code_simp
  have pixels: "embed [] (sample_store ! o_pixelBytes sample_object) =
          [6, 7, 1, 1, 0, 0, 1, 1,  0, 1, 1, 1, 0, 1, 0, 0,  0, 1, 1, 0, 0, 1, 1, 1,
           0, 0, 0, 0, 0, 0, 0, 0,  9, 8, 7, 6, 5, 4, 3, 2, 1, 0]"
    by code_simp
  have size: "length sample_store = 2"
    by code_simp
  have run: "hide_in_store sample_store sample_object [] = (Inr ?out, ?s')"
    by (simp only: hide_in_store_eq [OF valid] no_magic room if_False header pixels size)
       simp
  have first: "0 < length (pixelBytes (value_of sample_store sample_object))"
    by code_simp
  have later: "33 < length (pixelBytes (value_of sample_store sample_object))"
    "8 * (length ([] :: jsstring) + 4) \<le> 33"
    by code_simp+
  note frame = hide_frame [OF valid run]
  note same = frame [THEN conjunct2, THEN conjunct1]
  note upper = frame [THEN conjunct2, THEN conjunct2, THEN conjunct2, THEN conjunct2,
      THEN conjunct2, THEN conjunct1, rule_format, OF first]
  note beyond = frame [THEN conjunct2, THEN conjunct2, THEN conjunct2, THEN conjunct2,
      THEN conjunct2, THEN conjunct2, rule_format, OF later]
  show ?thesis
    unfolding run snd_conv by (intro conjI refl same upper beyond)
qed

text \<open>
  C7. When \<open>hide\<close> succeeds on an image with a message \<open>m1\<close>, \<open>checkMagic\<close> is true on the
  image it returns, and hiding any message \<open>m2\<close> in that image fails with \<open>STEG_MSG\<close>.
\<close>

theorem double_hide_rejected:
  "hide im m1 = Inr hidden \<Longrightarrow> checkMagic hidden \<and> hide hidden m2 = Inl STEG_MSG"
  using checkMagic_hide [of im m1 hidden] by (simp only: hide_eq [of hidden]) simp

theorem double_hide_rejected_witness:
  "hide (blank 16) [0x48, 0x69] = Inr (marked 16 ([0,1,0,0,1,0,0,0, 0,1,1,0,1,0,0,1] @ replicate 8 0))
   \<and> checkMagic (marked 16 ([0,1,0,0,1,0,0,0, 0,1,1,0,1,0,0,1] @ replicate 8 0))
   \<and> hide (marked 16 ([0,1,0,0,1,0,0,0, 0,1,1,0,1,0,0,1] @ replicate 8 0)) [0x21] = Inl STEG_MSG"
proof -
  have first: "hide (blank 16) [0x48, 0x69]
               = Inr (marked 16 ([0,1,0,0,1,0,0,0, 0,1,1,0,1,0,0,1] @ replicate 8 0))"
    by code_simp
  from double_hide_rejected [OF first, of "[0x21]"] first show ?thesis
    by simp
qed

text \<open>
  C8 (amended). Take an image that a successful \<open>hide\<close> returned, and replace the 8 pixel
  bytes that carry the terminating zero byte (group \<open>k\<close>, after the prefix and one group
  for each character of the message) by 8 bytes whose lowest bits encode a non-zero
  value. Then \<open>unhide\<close> fails with \<open>STEG_BAD_MSG\<close> if and only if no embedded byte of the
  message is zero and no whole group of 8 pixel bytes after the terminator encodes zero (as
  when the message fills the capacity). Otherwise \<open>unhide\<close> succeeds, and returns the
  embedded bytes of the message, the value now in the terminator's place and the bytes of
  the groups after it, up to the first zero among them.
\<close>

theorem corrupt_terminator:
  assumes "hide img message = Inr hidden"
    and "k = 3 + length (string_iter message)"
    and "length grp = 8"
    and "val_bits (lsbs grp) \<noteq> 0"
    and "corrupted = hidden\<lparr>pixelBytes := take (k * 8) (pixelBytes hidden) @ grp @
                                            drop (k * 8 + 8) (pixelBytes hidden)\<rparr>"
  shows "unhide corrupted =
           (if 0 \<notin> set (payload_of message) \<and> 0 \<notin> set (decoded img (k + 1))
            then Inl STEG_BAD_MSG
            else Inr (map of_nat (until_zero
                   (payload_of message @ val_bits (lsbs grp) # decoded img (k + 1)))))
         \<and> ((unhide corrupted = Inl STEG_BAD_MSG) =
              (0 \<notin> set (payload_of message) \<and> 0 \<notin> set (decoded img (k + 1))))"
proof -
  from assms(1) have fits: "length message + 4 \<le> length (pixelBytes img) div 8"
    and hidden: "hidden = img\<lparr>pixelBytes := embed message (pixelBytes img)\<rparr>"
    by (simp_all only: hide_eq split: if_splits) simp_all
  have "length (pixelBytes hidden) = length (pixelBytes img)"
    by (simp add: hidden embed_def length_put_bits)
  moreover have "k + 1 \<le> length message + 4"
    using length_string_iter [of message] assms(2) by simp
  ultimately have room: "k * 8 + 8 \<le> length (pixelBytes hidden)"
    using fits by arith
  let ?t = "val_bits (lsbs grp)"
  have D: "decoded hidden 0 = ([0x73, 0x74, 0x67] @ payload_of message) @ 0 # decoded img (k + 1)"
    using decoded_hide [OF assms(1)] assms(2) by (simp add: add.commute)
  have lenk: "length ([0x73, 0x74, 0x67 :: nat] @ payload_of message) = k"
    using assms(2) by (simp add: length_payload_of)
  have "decoded corrupted 0 = take k (decoded hidden 0) @ ?t # drop (k + 1) (decoded hidden 0)"
    unfolding assms(5) using room assms(3) by (rule decoded_replace_group)
  also have "take k (decoded hidden 0) = [0x73, 0x74, 0x67] @ payload_of message"
    unfolding D using lenk by (rule take_prefix)
  also have "drop (k + 1) (decoded hidden 0) = decoded img (k + 1)"
    unfolding D using lenk by (rule drop_prefix)
  finally have C: "decoded corrupted 0 =
      0x73 # 0x74 # 0x67 # payload_of message @ ?t # decoded img (k + 1)"
    by simp
  have result: "unhide corrupted =
           (if 0 \<notin> set (payload_of message) \<and> 0 \<notin> set (decoded img (k + 1))
            then Inl STEG_BAD_MSG
            else Inr (map of_nat (until_zero
                   (payload_of message @ ?t # decoded img (k + 1)))))"
    using assms(4) by (simp only: unhide_eq C) (simp add: STEG_MAGIC_def)
  then have "(unhide corrupted = Inl STEG_BAD_MSG) =
              (0 \<notin> set (payload_of message) \<and> 0 \<notin> set (decoded img (k + 1)))"
    by (simp only:) (simp split: if_splits)
  with result show ?thesis
    by (rule conjI)
qed

theorem corrupt_terminator_witness:
  "unhide (marked 16 ([0, 1, 0, 0, 0, 0, 0, 1] @ [0, 0, 0, 0, 0, 0, 1, 0] @ [0, 0, 0, 0, 0, 0, 0, 1]))
     = Inl STEG_BAD_MSG
   \<and> unhide (marked 16 ([0, 1, 0, 0, 0, 0, 0, 1] @ [0, 0, 0, 0, 0, 0, 1, 0] @ replicate 8 0))
     = Inr [0x41, 2]"
proof -
  let ?grp = "[0, 0, 0, 0, 0, 0, 1, 0] :: u8 list"
  let ?odd = "(blank 16)\<lparr>pixelBytes := replicate 40 0 @ [0, 0, 0, 0, 0, 0, 0, 1]\<rparr>"
  have k: "4 = 3 + length (string_iter [0x41])"
    by code_simp
  have grp: "length ?grp = 8"
    by simp
  have nonzero: "val_bits (lsbs ?grp) \<noteq> 0"
    by code_simp
  have hidden1: "hide ?odd [0x41]
      = Inr (marked 16 ([0, 1, 0, 0, 0, 0, 0, 1] @ replicate 8 0 @ [0, 0, 0, 0, 0, 0, 0, 1]))"
    by code_simp
  have corrupted1:
    "marked 16 ([0, 1, 0, 0, 0, 0, 0, 1] @ ?grp @ [0, 0, 0, 0, 0, 0, 0, 1])
      = (marked 16 ([0, 1, 0, 0, 0, 0, 0, 1] @ replicate 8 0 @ [0, 0, 0, 0, 0, 0, 0, 1]))
          \<lparr>pixelBytes :=
             take (4 * 8) (pixelBytes (marked 16
               ([0, 1, 0, 0, 0, 0, 0, 1] @ replicate 8 0 @ [0, 0, 0, 0, 0, 0, 0, 1]))) @ ?grp @
             drop (4 * 8 + 8) (pixelBytes (marked 16
               ([0, 1, 0, 0, 0, 0, 0, 1] @ replicate 8 0 @ [0, 0, 0, 0, 0, 0, 0, 1])))\<rparr>"
    by code_simp
  have none1: "0 \<notin> set (payload_of [0x41]) \<and> 0 \<notin> set (decoded ?odd (4 + 1))"
    by code_simp
  have hidden2: "hide (blank 16) [0x41]
      = Inr (marked 16 ([0, 1, 0, 0, 0, 0, 0, 1] @ replicate 16 0))"
    by code_simp
  have corrupted2:
    "marked 16 ([0, 1, 0, 0, 0, 0, 0, 1] @ ?grp @ replicate 8 0)
      = (marked 16 ([0, 1, 0, 0, 0, 0, 0, 1] @ replicate 16 0))
          \<lparr>pixelBytes :=
             take (4 * 8) (pixelBytes (marked 16 ([0, 1, 0, 0, 0, 0, 0, 1] @ replicate 16 0))) @
             ?grp @
             drop (4 * 8 + 8) (pixelBytes (marked 16 ([0, 1, 0, 0, 0, 0, 0, 1] @ replicate 16 0)))\<rparr>"
    by code_simp
  have some2: "\<not> (0 \<notin> set (payload_of [0x41]) \<and> 0 \<notin> set (decoded (blank 16) (4 + 1)))"
    by code_simp
  have bytes2: "map of_nat (until_zero
        (payload_of [0x41] @ val_bits (lsbs ?grp) # decoded (blank 16) (4 + 1))) = [0x41, 2 :: u16]"
    by code_simp
  from corrupt_terminator [OF hidden1 k grp nonzero corrupted1, THEN conjunct1] none1
  have first: "unhide (marked 16 ([0, 1, 0, 0, 0, 0, 0, 1] @ ?grp @ [0, 0, 0, 0, 0, 0, 0, 1]))
               = Inl STEG_BAD_MSG"
    by simp
  from corrupt_terminator [OF hidden2 k grp nonzero corrupted2, THEN conjunct1] some2
  have "unhide (marked 16 ([0, 1, 0, 0, 0, 0, 0, 1] @ ?grp @ replicate 8 0))
        = Inr (map of_nat (until_zero
            (payload_of [0x41] @ val_bits (lsbs ?grp) # decoded (blank 16) (4 + 1))))"
    by simp
  with bytes2 have second: "unhide (marked 16 ([0, 1, 0, 0, 0, 0, 0, 1] @ ?grp @ replicate 8 0))
        = Inr [0x41, 2]"
    by (simp only:)
  from first second show ?thesis
    by (rule conjI)
qed

text \<open>
  The empty message hidden in 48 zero pixel bytes leaves two groups after the terminator.
  With the terminator changed to decode to 1, \<open>unhide\<close> reads on, meets the zero byte of
  the next group and returns the one-byte message 1 instead of failing.
\<close>

theorem corrupt_terminator_counterexample:
  "hide (blank 16) [] = Inr (marked 16 (replicate 24 0))
   \<and> (marked 16 (replicate 24 0))\<lparr>pixelBytes := (pixelBytes (marked 16 (replicate 24 0)))[31 := 1]\<rparr>
       = marked 16 ([0, 0, 0, 0, 0, 0, 0, 1] @ replicate 16 0)
   \<and> decoded (marked 16 ([0, 0, 0, 0, 0, 0, 0, 1] @ replicate 16 0)) 3 = [1, 0, 0]
   \<and> unhide (marked 16 ([0, 0, 0, 0, 0, 0, 0, 1] @ replicate 16 0)) = Inr [1]"
  by (intro conjI; code_simp)




text \<open>
  C10. Every index at which \<open>unhideLo\<close> reads \<open>pixelBytes\<close>, for any offset and any
  \<open>msgLen\<close> (so in \<open>checkMagic\<close> and in \<open>unhide\<close> too), is below
  \<open>floor(pixelBytes.length / 8) * 8\<close>, which is at most \<open>pixelBytes.length\<close>. On an image
  of fewer than 24 pixel bytes \<open>checkMagic\<close> is false and \<open>unhide\<close> fails with
  \<open>STEG_NO_MSG\<close>. The last \<open>pixelBytes.length mod 8\<close> pixel bytes take no part: replacing
  them by any other bytes changes neither \<open>checkMagic\<close> nor \<open>unhide\<close>.
\<close>

theorem unhide_reads_in_bounds:
  "set (unhideLo_reads img offset msgLen) \<subseteq> {..<length (pixelBytes img) div 8 * 8}
   \<and> length (pixelBytes img) div 8 * 8 \<le> length (pixelBytes img)
   \<and> (length (pixelBytes img) < 24 \<longrightarrow> \<not> checkMagic img \<and> unhide img = Inl STEG_NO_MSG)
   \<and> (length rest = length (pixelBytes img) mod 8 \<longrightarrow>
        checkMagic (img\<lparr>pixelBytes :=
            take (length (pixelBytes img) div 8 * 8) (pixelBytes img) @ rest\<rparr>) = checkMagic img
        \<and> unhide (img\<lparr>pixelBytes :=
            take (length (pixelBytes img) div 8 * 8) (pixelBytes img) @ rest\<rparr>) = unhide img)"
proof (intro conjI impI)
  show "set (unhideLo_reads img offset msgLen) \<subseteq> {..<length (pixelBytes img) div 8 * 8}"
    by (rule unhideLo_reads_bound)
  show "length (pixelBytes img) div 8 * 8 \<le> length (pixelBytes img)"
    by simp
next
  assume "length (pixelBytes img) < 24"
  then show "\<not> checkMagic img"
    by (rule short_image_no_magic)
  then show "unhide img = Inl STEG_NO_MSG"
    by (simp add: unhide_def)
next
  assume rest: "length rest = length (pixelBytes img) mod 8"
  show "checkMagic (img\<lparr>pixelBytes :=
            take (length (pixelBytes img) div 8 * 8) (pixelBytes img) @ rest\<rparr>) = checkMagic img"
    by (simp only: checkMagic_eq decoded_whole_groups [OF rest])
  show "unhide (img\<lparr>pixelBytes :=
            take (length (pixelBytes img) div 8 * 8) (pixelBytes img) @ rest\<rparr>) = unhide img"
    by (simp only: unhide_eq decoded_whole_groups [OF rest])
qed

theorem unhide_reads_in_bounds_witness:
  "set (unhideLo_reads (marked 9 [1, 1, 1]) 3 (- 1)) \<subseteq> {..<24}
   \<and> unhide (blank 7) = Inl STEG_NO_MSG
   \<and> unhide (marked 9 [0, 0, 0]) = unhide (marked 9 [1, 1, 1])"
proof -
  have whole: "length (pixelBytes (marked 9 [1, 1, 1])) div 8 * 8 = 24"
    by code_simp
  have rest: "length [0, 0, 0 :: u8] = length (pixelBytes (marked 9 [1, 1, 1])) mod 8"
    by code_simp
  have same: "(marked 9 [1, 1, 1])\<lparr>pixelBytes := take 24 (pixelBytes (marked 9 [1, 1, 1])) @ [0, 0, 0]\<rparr>
              = marked 9 [0, 0, 0]"
    by code_simp
  have short: "length (pixelBytes (blank 7)) < 24"
    by code_simp
  from unhide_reads_in_bounds [of "marked 9 [1, 1, 1]" 3 "- 1" "[0, 0, 0]"] rest
  have "set (unhideLo_reads (marked 9 [1, 1, 1]) 3 (- 1)) \<subseteq> {..<24}"
    and "unhide (marked 9 [0, 0, 0]) = unhide (marked 9 [1, 1, 1])"
    by (simp_all only: whole same)
  moreover from unhide_reads_in_bounds [of "blank 7"] short
  have "unhide (blank 7) = Inl STEG_NO_MSG"
    by blast
  ultimately show ?thesis
    by simp
qed

end
